theory Spec2Isabelle
  imports
    Main
    "HOL-Library.AList"
    "HOL-Library.Char_ord"
    "HOL-Library.List_Lexorder"
    "HOL-Library.Sublist"
begin

section \<open>Tag vocabulary (unify\_fgd.py)\<close>

text \<open>
  Tags are Python strings and tag sets are frozensets of strings.  \<open>str.upper\<close> is
  modelled on the ASCII letters, which is all that the vocabulary below contains.
\<close>

definition upper_char :: "char \<Rightarrow> char" where
  "upper_char c =
     (case map_of (zip ''abcdefghijklmnopqrstuvwxyz'' ''ABCDEFGHIJKLMNOPQRSTUVWXYZ'') c of
        None \<Rightarrow> c
      | Some u \<Rightarrow> u)"

definition upper :: "string \<Rightarrow> string" where
  "upper s = map upper_char s"

definition GAMES :: "(string \<times> string) list" where
  "GAMES =
    [(''HLS'', ''Half-Life: Source''),
     (''DODS'', ''Day of Defeat: Source''),
     (''CSS'', ''Counter-Strike: Source''),
     (''HL2'', ''Half-Life 2''),
     (''EP1'', ''Half-Life 2 Episode 1''),
     (''EP2'', ''Half-Life 2 Episode 2''),
     (''TF2'', ''Team Fortress 2''),
     (''P1'', ''Portal''),
     (''L4D'', ''Left 4 Dead''),
     (''L4D2'', ''Left 4 Dead 2''),
     (''ASW'', ''Alien Swam''),
     (''P2'', ''Portal 2''),
     (''CSGO'', ''Counter-Strike Global Offensive''),
     (''SFM'', ''Source Filmmaker''),
     (''DOTA2'', ''Dota 2''),
     (''PUNT'', ''PUNT''),
     (''P2DES'', ''Portal 2: Desolation'')]"

definition GAME_ORDER :: "string list" where
  "GAME_ORDER = map fst GAMES"

definition FEATURES :: "(string \<times> string set) list" where
  "FEATURES =
    [(''L4D'', {''INSTANCING''}),
     (''TF2'', {''INSTANCING'', ''PROP_SCALING''}),
     (''ASW'', {''INSTANCING'', ''VSCRIPT''}),
     (''P2'', {''INSTANCING'', ''VSCRIPT''}),
     (''CSGO'', {''INSTANCING'', ''PROP_SCALING'', ''VSCRIPT''}),
     (''P2DES'', {''INSTANCING'', ''PROP_SCALING'', ''VSCRIPT''})]"

text \<open>\<open>list.index\<close>: the first position of an element; \<open>None\<close> stands for ValueError.\<close>

fun index_of :: "'a list \<Rightarrow> 'a \<Rightarrow> nat option" where
  "index_of [] x = None"
| "index_of (y # ys) x = (if y = x then Some 0 else map_option Suc (index_of ys x))"

section \<open>Tag algebra\<close>

text \<open>
  The body of the loop of \<open>expand_tags\<close> for one tag: both lookups swallow their
  exception, so a tag that names neither a feature bundle nor a game adds nothing.
\<close>

definition expand_one :: "string \<Rightarrow> string set" where
  "expand_one tag =
     (case map_of FEATURES (upper tag) of None \<Rightarrow> {} | Some fs \<Rightarrow> fs) \<union>
     (case index_of GAME_ORDER (upper tag) of
        None \<Rightarrow> {}
      | Some pos \<Rightarrow>
          set (map (\<lambda>t. ''SINCE_'' @ t) (take (pos + 1) GAME_ORDER)) \<union>
          set (map (\<lambda>t. ''UNTIL_'' @ t) (drop (pos + 1) GAME_ORDER)))"

definition expand_tags :: "string set \<Rightarrow> string set" where
  "expand_tags tags = tags \<union> \<Union> (expand_one ` tags)"

text \<open>\<open>add_tag\<close>: \<open>new_tag[1:]\<close> is \<open>tl new_tag\<close>; \<open>discard\<close> is set difference.\<close>

definition is_negated :: "string \<Rightarrow> bool" where
  "is_negated t = (case t of [] \<Rightarrow> False | c # _ \<Rightarrow> c = CHR ''!'' \<or> c = CHR ''-'')"

definition add_tag :: "string set \<Rightarrow> string \<Rightarrow> string set" where
  "add_tag tags new_tag =
     (if is_negated new_tag then insert new_tag (tags - {tl new_tag})
      else
        (let tag_set = tags - {CHR ''!'' # upper new_tag} - {CHR ''-'' # upper new_tag}
         in if (CHR ''+'' # upper new_tag) \<in> tag_set then tag_set
            else insert (upper new_tag) tag_set))"

section \<open>Entities and definition files\<close>

text \<open>
  The classes of \<open>srctools.fgd\<close> that the tool works on.  A \<open>KeyValues\<close> or \<open>IODef\<close>
  object is a record with a flag telling the two apart (\<open>isinstance(value, KeyValues)\<close>);
  Python's \<open>==\<close> on them is structural and is HOL equality here.  The three categories
  of an entity are dicts from a name to a dict from a tag set to a value; a dict is an
  association list in insertion order, \<open>d[k] = v\<close> is \<open>AList.update\<close> (in place when the
  key is there, appended otherwise) and \<open>del d[k]\<close> is \<open>AList.delete\<close>.  The fields
  \<open>type\<close> and \<open>desc\<close> of a value are \<open>vtype\<close> and \<open>vdesc\<close>, the field \<open>type\<close> of
  an entity is \<open>etype\<close>.  Files are parsed with \<open>eval_bases=False\<close>, so the bases of an
  entity are classnames.
\<close>

datatype EntityTypes = BASE | POINT | BRUSH | ROPES | TRACK | FILTER_ENT | NPC

datatype HelperTypes = EXT_APPLIES_TO | EXT_ORDERBY | HELPER string

datatype ValueTypes = VT_VOID | VT_STRING | VT_BOOL | VT_INT | VT_FLOAT | VT_CHOICES
  | VT_OTHER string

record ValueDef =
  is_keyvalues :: bool
  vname :: string
  vtype :: ValueTypes
  vdesc :: string
  val_list :: "(string \<times> string \<times> string set) list option"
  vdefault :: string

type_synonym tag_map = "(string set \<times> ValueDef) list"

type_synonym category = "(string \<times> tag_map) list"

type_synonym helper = "HelperTypes \<times> string list"

record EntityDef =
  classname :: string
  etype :: EntityTypes
  desc :: string
  bases :: "string list"
  helpers :: "helper list"
  keyvalues :: category
  inputs :: category
  outputs :: category

definition ent_path :: "EntityDef \<Rightarrow> string" where
  "ent_path ent =
     (if classname ent = ''worldspawn'' then ''worldspawn.fgd''
      else (if etype ent = BASE then ''bases''
            else if etype ent = BRUSH then ''brush''
            else ''point/'') @ ''/'' @ classname ent @ ''.fgd'')"

subsection \<open>The AppliesTo helper\<close>

definition is_appliesto :: "helper \<Rightarrow> bool" where
  "is_appliesto h = (fst h = EXT_APPLIES_TO)"

text \<open>
  \<open>get_appliesto\<close> returns the argument list and leaves the entity with one AppliesTo
  helper holding that very list, at the position \<open>appliesto_pos\<close>.  The model returns
  the list together with the updated entity; a caller that appends to the list writes to
  the helper at that position (\<open>appliesto_append\<close>).
\<close>

definition appliesto_pos :: "helper list \<Rightarrow> nat" where
  "appliesto_pos hs =
     (if list_ex is_appliesto hs then length (takeWhile (\<lambda>h. \<not> is_appliesto h) hs) else 0)"

definition appliesto_args :: "helper list \<Rightarrow> string list" where
  "appliesto_args hs = sort (remdups (concat (map snd (filter is_appliesto hs))))"

definition get_appliesto :: "EntityDef \<Rightarrow> string list \<times> EntityDef" where
  "get_appliesto ent =
     (let pos = appliesto_pos (helpers ent);
          arg_list = appliesto_args (helpers ent);
          rest = filter (\<lambda>h. \<not> is_appliesto h) (helpers ent)
      in (arg_list,
          ent\<lparr>helpers := take pos rest @ (EXT_APPLIES_TO, arg_list) # drop pos rest\<rparr>))"

definition appliesto_append :: "nat \<Rightarrow> string \<Rightarrow> EntityDef \<Rightarrow> EntityDef" where
  "appliesto_append pos tag ent =
     ent\<lparr>helpers := (helpers ent)[pos := (EXT_APPLIES_TO, snd (helpers ent ! pos) @ [tag])]\<rparr>"

section \<open>Import\<close>

text \<open>\<open>needle in haystack\<close> on Python strings.\<close>

fun substring_in :: "string \<Rightarrow> string \<Rightarrow> bool" where
  "substring_in xs [] = (xs = [])"
| "substring_in xs (y # ys) = (prefix xs (y # ys) \<or> substring_in xs ys)"

text \<open>\<open>if x not in xs: xs.append(x)\<close>, for every \<open>x\<close> of a second list in turn.\<close>

definition append_new :: "'a list \<Rightarrow> 'a list \<Rightarrow> 'a list" where
  "append_new xs ys = foldl (\<lambda>acc y. if y \<in> set acc then acc else acc @ [y]) xs ys"

text \<open>The dict comprehension \<open>{add_tag(tag, t): value for tag, value in tag_map.items()}\<close>.\<close>

definition retag :: "string \<Rightarrow> tag_map \<Rightarrow> tag_map" where
  "retag t tm = foldl (\<lambda>acc (tag, v). AList.update (add_tag tag t) v acc) [] tm"

text \<open>
  One round of the loop over the new tag map (lines 269-280): the inner loop stops at
  the first old alternative with an equal value; its \<open>else\<close> branch runs when there is
  none.
\<close>

definition merge_value :: "string \<Rightarrow> tag_map \<Rightarrow> string set \<times> ValueDef \<Rightarrow> tag_map" where
  "merge_value engine_tag orig_tag_map tv =
     (case tv of (tag, new_value) \<Rightarrow>
        (case find (\<lambda>(old_tag, old_value). old_value = new_value) orig_tag_map of
           Some (old_tag, old_value) \<Rightarrow>
             if tag \<noteq> {}
             then AList.update (add_tag old_tag engine_tag) new_value
                    (AList.delete old_tag orig_tag_map)
             else orig_tag_map
         | None \<Rightarrow> AList.update (add_tag tag engine_tag) new_value orig_tag_map))"

definition merge_tag_map :: "string \<Rightarrow> tag_map \<Rightarrow> tag_map \<Rightarrow> tag_map" where
  "merge_tag_map engine_tag orig_tag_map tm = foldl (merge_value engine_tag) orig_tag_map tm"

definition merge_name :: "string \<Rightarrow> category \<Rightarrow> string \<times> tag_map \<Rightarrow> category" where
  "merge_name engine_tag cur_map ntm =
     (case ntm of (name, tm) \<Rightarrow>
        (case map_of cur_map name of
           None \<Rightarrow> AList.update name (retag engine_tag tm) cur_map
         | Some orig_tag_map \<Rightarrow>
             AList.update name (merge_tag_map engine_tag orig_tag_map tm) cur_map))"

definition merge_category :: "string \<Rightarrow> category \<Rightarrow> category \<Rightarrow> category" where
  "merge_category engine_tag cur_map new_map =
     (let merged = foldl (merge_name engine_tag) cur_map new_map;
          new_names = set (map fst new_map)
      in map (\<lambda>(name, tm).
                if name \<notin> new_names then (name, retag (CHR ''!'' # engine_tag) tm)
                else (name, tm)) merged)"

definition merge_ent :: "string \<Rightarrow> EntityDef \<Rightarrow> EntityDef \<Rightarrow> EntityDef" where
  "merge_ent engine_tag ent new_ent =
     ent\<lparr>desc := (if \<not> substring_in (desc new_ent) (desc ent)
                  then desc ent @ ''|||'' @ desc new_ent else desc ent),
         bases := append_new (bases ent) (bases new_ent),
         helpers := append_new (helpers ent) (helpers new_ent),
         keyvalues := merge_category engine_tag (keyvalues ent) (keyvalues new_ent),
         inputs := merge_category engine_tag (inputs ent) (inputs new_ent),
         outputs := merge_category engine_tag (outputs ent) (outputs new_ent)\<rparr>"

text \<open>Lines 296-298: normalise the AppliesTo helper and make the engine tag a member.\<close>

definition set_appliesto :: "string \<Rightarrow> EntityDef \<Rightarrow> EntityDef" where
  "set_appliesto engine_tag ent =
     (case get_appliesto ent of (applies_to, ent') \<Rightarrow>
        if engine_tag \<notin> set applies_to
        then appliesto_append (appliesto_pos (helpers ent)) engine_tag ent'
        else ent')"

text \<open>
  The database directory maps the path of a file to the file's entities by classname.
  Writing a file and parsing it again is taken to give back the entities written (the
  reader and the writer are \<open>srctools\<close>), and \<open>pathlib\<close>'s normalisation of the joined
  path is left out.  A file that did not exist is written with the new entity alone.

  The errors: \<open>ClassnameNotPresent\<close> is the ValueError of the import,
  \<open>EngineChoices classname key\<close> the ValueError of the engine export; \<open>EmptyTagMap\<close> is
  the IndexError of indexing an empty sorted list and \<open>ChoicesNotIterable\<close> the TypeError
  of looping over a missing choice list; \<open>External\<close> is an exception raised inside a
  function of \<open>srctools\<close>.
\<close>

datatype error =
    ClassnameNotPresent
  | EngineChoices string string
  | EmptyTagMap string string
  | ChoicesNotIterable string string
  | External string

type_synonym FGD = "string \<rightharpoonup> EntityDef"

type_synonym database = "string \<rightharpoonup> FGD"

definition import_ent :: "string \<Rightarrow> database \<Rightarrow> EntityDef \<Rightarrow> error + database" where
  "import_ent engine_tag dbase new_ent =
     (case dbase (ent_path new_ent) of
        Some old_fgd \<Rightarrow>
          (case old_fgd (classname new_ent) of
             None \<Rightarrow> Inl ClassnameNotPresent
           | Some ent \<Rightarrow>
               Inr (dbase(ent_path new_ent \<mapsto>
                      old_fgd(classname new_ent \<mapsto>
                        set_appliesto engine_tag (merge_ent engine_tag ent new_ent)))))
      | None \<Rightarrow>
          Inr (dbase(ent_path new_ent \<mapsto>
                 [classname new_ent \<mapsto> set_appliesto engine_tag new_ent])))"

text \<open>
  The loop over the entities read from the imported files.  The exception leaves the
  loop, so the result is the database as written so far and the error.
\<close>

fun action_import :: "string \<Rightarrow> database \<Rightarrow> EntityDef list \<Rightarrow> database \<times> error option" where
  "action_import engine_tag dbase [] = (dbase, None)"
| "action_import engine_tag dbase (new_ent # rest) =
     (case import_ent engine_tag dbase new_ent of
        Inl err \<Rightarrow> (dbase, Some err)
      | Inr dbase' \<Rightarrow> action_import engine_tag dbase' rest)"

subsection \<open>Untagged fragments\<close>

text \<open>
  A freshly parsed fragment carries no tags: in each category the names are distinct (it
  is a dict), and every tag map has distinct keys, all of them the empty tag set.
  \<open>holds_value orig tm\<close> says that every value of \<open>tm\<close> is a value of \<open>orig\<close>;
  \<open>covers cur new\<close> that every name of \<open>new\<close> is in \<open>cur\<close> with a tag map holding its
  values; \<open>narrowed E cur new\<close> that the tag maps of the names of \<open>cur\<close> that are not
  in \<open>new\<close> are unchanged by negating \<open>E\<close> again.
\<close>

definition untagged_map :: "tag_map \<Rightarrow> bool" where
  "untagged_map tm = (distinct (map fst tm) \<and> list_all (\<lambda>(tag, v). tag = {}) tm)"

definition untagged_cat :: "category \<Rightarrow> bool" where
  "untagged_cat c = (distinct (map fst c) \<and> list_all (\<lambda>(name, tm). untagged_map tm) c)"

definition untagged :: "EntityDef \<Rightarrow> bool" where
  "untagged ent = (untagged_cat (keyvalues ent) \<and> untagged_cat (inputs ent)
     \<and> untagged_cat (outputs ent))"

definition holds_value :: "tag_map \<Rightarrow> tag_map \<Rightarrow> bool" where
  "holds_value orig tm = list_all (\<lambda>(tag, v). v \<in> snd ` set orig) tm"

definition covers :: "category \<Rightarrow> category \<Rightarrow> bool" where
  "covers cur new =
     list_all (\<lambda>(n, tm). case map_of cur n of None \<Rightarrow> False | Some orig \<Rightarrow> holds_value orig tm) new"

definition narrowed :: "string \<Rightarrow> category \<Rightarrow> category \<Rightarrow> bool" where
  "narrowed E cur new =
     list_all (\<lambda>(n, tm). n \<in> fst ` set new \<or> retag (CHR ''!'' # E) tm = tm) cur"

text \<open>
  Two helper lists are compared up to the order of the arguments of their AppliesTo
  helpers: the arguments of such a helper are sorted, nothing else is changed.
\<close>

definition canon_helper :: "helper \<Rightarrow> helper" where
  "canon_helper h = (if is_appliesto h then (fst h, sort (snd h)) else h)"

text \<open>
  \<open>same_entity\<close>: equal in every field, the helper lists compared as above.
  \<open>stored\<close>: the entity of the database with the path and the classname of a given one.
\<close>

definition same_entity :: "EntityDef \<Rightarrow> EntityDef \<Rightarrow> bool" where
  "same_entity a b =
     (a\<lparr>helpers := map canon_helper (helpers a)\<rparr> = b\<lparr>helpers := map canon_helper (helpers b)\<rparr>)"

definition stored :: "database \<Rightarrow> EntityDef \<Rightarrow> EntityDef option" where
  "stored dbase new_ent =
     (case dbase (ent_path new_ent) of None \<Rightarrow> None | Some fgd \<Rightarrow> fgd (classname new_ent))"

section \<open>Export\<close>

text \<open>
  The loaded database is the dict \<open>fgd.entities\<close>, an association list from a key to
  an entity.  What \<open>print\<close> writes to the console is left out.  \<open>int(choice_val)\<close> is
  the parameter \<open>int_ok\<close> (does the string parse as a Python integer), and the functions
  \<open>match_tags\<close>, \<open>EntityDef.strip_tags\<close> and \<open>FGD.collapse_bases\<close> of \<open>srctools\<close> are
  parameters too; the last is given the loaded database beside the dict it works on,
  because it follows the bases of an entity to entities that may have left the dict.
  Every entity owns its values: no value object is shared between two tag maps.
\<close>

type_synonym entities = "(string \<times> EntityDef) list"

subsection \<open>Engine mode\<close>

text \<open>
  Lines 348-371: the value to keep for one key.  \<open>sorted(..., key=len)\<close> is a stable
  sort on the size of the tag set.
\<close>

definition engine_select :: "string \<Rightarrow> string \<Rightarrow> tag_map \<Rightarrow> error + ValueDef" where
  "engine_select cls key tm =
     (if length tm = 1 then Inr (snd (hd tm))
      else
        (case map_of tm {''ENGINE''} of
           Some v \<Rightarrow> if vtype v = VT_CHOICES then Inl (EngineChoices cls key) else Inr v
         | None \<Rightarrow>
             (case sort_key (\<lambda>t. card (fst t)) tm of
                [] \<Rightarrow> Inl (EmptyTagMap cls key)
              | t # _ \<Rightarrow> Inr (snd t))))"

text \<open>Lines 373-391: a choices value becomes an integer or a string; the description goes.\<close>

definition engine_convert ::
  "(string \<Rightarrow> bool) \<Rightarrow> string \<Rightarrow> string \<Rightarrow> ValueDef \<Rightarrow> error + ValueDef" where
  "engine_convert int_ok cls key v =
     (if vtype v = VT_CHOICES \<and> is_keyvalues v
      then
        (case val_list v of
           None \<Rightarrow> Inl (ChoicesNotIterable cls key)
         | Some choices \<Rightarrow>
             Inr (v\<lparr>vtype := (if list_all (\<lambda>(choice_val, name, tag). int_ok choice_val) choices
                               then VT_INT else VT_STRING),
                   val_list := None, vdesc := []\<rparr>))
      else Inr (v\<lparr>vdesc := []\<rparr>))"

definition engine_key ::
  "(string \<Rightarrow> bool) \<Rightarrow> string \<Rightarrow> string \<Rightarrow> tag_map \<Rightarrow> error + tag_map" where
  "engine_key int_ok cls key tm =
     (case engine_select cls key tm of
        Inl e \<Rightarrow> Inl e
      | Inr v \<Rightarrow>
          (case engine_convert int_ok cls key v of
             Inl e \<Rightarrow> Inl e
           | Inr v' \<Rightarrow> Inr [({}, v')]))"

fun engine_category ::
  "(string \<Rightarrow> bool) \<Rightarrow> string \<Rightarrow> category \<Rightarrow> error + category" where
  "engine_category int_ok cls [] = Inr []"
| "engine_category int_ok cls ((key, tm) # rest) =
     (case engine_key int_ok cls key tm of
        Inl e \<Rightarrow> Inl e
      | Inr tm' \<Rightarrow>
          (case engine_category int_ok cls rest of
             Inl e \<Rightarrow> Inl e
           | Inr rest' \<Rightarrow> Inr ((key, tm') # rest')))"

text \<open>One entity: the helpers are filtered, then the categories in the order of line 341.\<close>

definition engine_ent :: "(string \<Rightarrow> bool) \<Rightarrow> EntityDef \<Rightarrow> error + EntityDef" where
  "engine_ent int_ok ent =
     (let ent1 = ent\<lparr>helpers :=
            filter (\<lambda>h. fst h \<noteq> EXT_APPLIES_TO \<and> fst h \<noteq> EXT_ORDERBY) (helpers ent)\<rparr>
      in case engine_category int_ok (classname ent) (inputs ent1) of
           Inl e \<Rightarrow> Inl e
         | Inr i \<Rightarrow>
             (case engine_category int_ok (classname ent) (outputs ent1) of
                Inl e \<Rightarrow> Inl e
              | Inr ou \<Rightarrow>
                  (case engine_category int_ok (classname ent) (keyvalues ent1) of
                     Inl e \<Rightarrow> Inl e
                   | Inr k \<Rightarrow> Inr (ent1\<lparr>inputs := i, outputs := ou, keyvalues := k\<rparr>))))"

fun engine_merge :: "(string \<Rightarrow> bool) \<Rightarrow> entities \<Rightarrow> error + entities" where
  "engine_merge int_ok [] = Inr []"
| "engine_merge int_ok ((k, ent) # rest) =
     (case engine_ent int_ok ent of
        Inl e \<Rightarrow> Inl e
      | Inr ent' \<Rightarrow>
          (case engine_merge int_ok rest of
             Inl e \<Rightarrow> Inl e
           | Inr rest' \<Rightarrow> Inr ((k, ent') # rest')))"

text \<open>Lines 419-424: the base entities leave the dict.\<close>

definition remove_bases :: "entities \<Rightarrow> entities" where
  "remove_bases es = filter (\<lambda>(clsname, ent). etype ent \<noteq> BASE) es"

definition export_engine ::
  "(string \<Rightarrow> bool) \<Rightarrow> (entities \<Rightarrow> entities \<Rightarrow> error + entities) \<Rightarrow> entities
     \<Rightarrow> error + entities" where
  "export_engine int_ok collapse_bases fgd =
     (case collapse_bases fgd fgd of
        Inl e \<Rightarrow> Inl e
      | Inr collapsed \<Rightarrow>
          (case engine_merge int_ok collapsed of
             Inl e \<Rightarrow> Inl e
           | Inr merged \<Rightarrow> Inr (remove_bases merged)))"

subsection \<open>Tagged mode\<close>

text \<open>
  Lines 398-411.  The dict is emptied and the entities that match go back in under their
  classname; the entity put into the dict is the object that is then stripped.
\<close>

fun cull ::
  "(string set \<Rightarrow> string list \<Rightarrow> bool) \<Rightarrow> (string set \<Rightarrow> EntityDef \<Rightarrow> error + EntityDef)
     \<Rightarrow> string set \<Rightarrow> EntityDef list \<Rightarrow> entities \<Rightarrow> error + entities" where
  "cull match_tags strip_tags tags [] acc = Inr acc"
| "cull match_tags strip_tags tags (ent # ents) acc =
     (case get_appliesto ent of (applies_to, ent1) \<Rightarrow>
        if match_tags tags applies_to
        then
          (case strip_tags tags
                  (ent1\<lparr>helpers := filter (\<lambda>h. fst h \<noteq> EXT_APPLIES_TO) (helpers ent1)\<rparr>) of
             Inl e \<Rightarrow> Inl e
           | Inr ent2 \<Rightarrow>
               cull match_tags strip_tags tags ents (AList.update (classname ent) ent2 acc))
        else cull match_tags strip_tags tags ents acc)"

definition export_tagged ::
  "(string set \<Rightarrow> string list \<Rightarrow> bool) \<Rightarrow> (string set \<Rightarrow> EntityDef \<Rightarrow> error + EntityDef)
     \<Rightarrow> (entities \<Rightarrow> entities \<Rightarrow> error + entities) \<Rightarrow> string set \<Rightarrow> entities
     \<Rightarrow> error + entities" where
  "export_tagged match_tags strip_tags collapse_bases tags fgd =
     (case cull match_tags strip_tags (expand_tags tags) (map snd fgd) [] of
        Inl e \<Rightarrow> Inl e
      | Inr kept \<Rightarrow>
          (case collapse_bases fgd kept of
             Inl e \<Rightarrow> Inl e
           | Inr collapsed \<Rightarrow> Inr (remove_bases collapsed)))"

text \<open>
  What the export relies on from \<open>srctools\<close>: \<open>strip_tags\<close> rewrites the tag maps of an
  entity, and \<open>collapse_bases\<close> inlines the category entries of bases into the entities of
  the dict; neither touches a key of the dict, a classname, a kind or a helper list.
\<close>

definition strip_tags_frame :: "(string set \<Rightarrow> EntityDef \<Rightarrow> error + EntityDef) \<Rightarrow> bool" where
  "strip_tags_frame strip_tags =
     (\<forall>tags ent ent'. strip_tags tags ent = Inr ent' \<longrightarrow>
        classname ent' = classname ent \<and> etype ent' = etype ent \<and> helpers ent' = helpers ent)"

definition ent_frame :: "string \<times> EntityDef \<Rightarrow> string \<times> string \<times> EntityTypes \<times> helper list" where
  "ent_frame ke = (fst ke, classname (snd ke), etype (snd ke), helpers (snd ke))"

definition collapse_bases_frame :: "(entities \<Rightarrow> entities \<Rightarrow> error + entities) \<Rightarrow> bool" where
  "collapse_bases_frame collapse_bases =
     (\<forall>fgd es es'. collapse_bases fgd es = Inr es' \<longrightarrow> map ent_frame es' = map ent_frame es)"

text \<open>
  The invariant of the loop of \<open>cull\<close>: an entry of the dict is keyed by the classname of
  its entity, the entity has no AppliesTo helper, and an entity of that classname that
  matches the tags has been seen.
\<close>

definition culled_ok ::
  "(string set \<Rightarrow> string list \<Rightarrow> bool) \<Rightarrow> string set \<Rightarrow> EntityDef list \<Rightarrow> string \<times> EntityDef \<Rightarrow> bool" where
  "culled_ok match_tags tags ents ke =
     (fst ke = classname (snd ke) \<and> \<not> list_ex is_appliesto (helpers (snd ke))
      \<and> list_ex (\<lambda>ent. classname ent = fst ke \<and> match_tags tags (fst (get_appliesto ent))) ents)"

section \<open>The comp\_adv\_output transform (transforms/comp\_adv\_output.py)\<close>

text \<open>
  An entity of the map has keyvalues, read with \<open>ent[key]\<close> (the empty string when the
  key is absent), and a list of outputs.  The map is an association list from an entity
  id to the entity.  The functions of \<open>srctools\<close> and \<open>hammeraddons\<close> that the transform
  calls, and the float arithmetic, are the fields of an environment; \<open>'f\<close> is the type of
  Python floats, \<open>fneg x\<close> stands for \<open>x < 0.0\<close> and \<open>fzero\<close> for \<open>0.0\<close>.  \<open>vformat\<close> is
  \<open>string.Formatter.vformat\<close>, which calls back the \<open>get_value\<close> of the formatter object;
  an exception inside it is an \<open>Inl\<close>.
\<close>

type_synonym keyvals = "(string \<times> string) list"

definition kv_get :: "keyvals \<Rightarrow> string \<Rightarrow> string" where
  "kv_get kv key = (case map_of kv key of None \<Rightarrow> [] | Some v \<Rightarrow> v)"

record 'f Output =
  o_output :: string
  o_target :: string
  o_input :: string
  o_params :: string
  o_delay :: 'f
  o_times :: int

record 'f Entity =
  ent_keys :: keyvals
  ent_outs :: "'f Output list"

type_synonym 'f VMF = "(nat \<times> 'f Entity) list"

datatype fkey = IntKey int | StrKey string

datatype format_error = IndexError | KeyError fkey | FormatError

datatype log_msg =
    NoTarget string
  | NegativeDelay string
  | FormatFailed string string "string list"
  | NoEntities string string

record 'f env =
  check_control_enabled :: "keyvals \<Rightarrow> bool"
  conv_int :: "string \<Rightarrow> int \<Rightarrow> int"
  conv_float :: "string \<Rightarrow> 'f"
  fadd :: "'f \<Rightarrow> 'f \<Rightarrow> 'f"
  fneg :: "'f \<Rightarrow> bool"
  fzero :: 'f
  vformat :: "(fkey \<Rightarrow> string list \<Rightarrow> format_error + string) \<Rightarrow> string \<Rightarrow> string list
                \<Rightarrow> format_error + string"
  search :: "'f VMF \<Rightarrow> string \<Rightarrow> nat list"

record 'f state =
  vmf :: "'f VMF"
  log :: "log_msg list"

text \<open>\<open>SimpleFormatter.get_value\<close>: 1-based positions; \<open>args[key - 1]\<close> may be out of range.\<close>

definition get_value :: "fkey \<Rightarrow> string list \<Rightarrow> format_error + string" where
  "get_value key args =
     (case key of
        IntKey k \<Rightarrow>
          if k > 0
          then (if nat (k - 1) < length args then Inr (args ! nat (k - 1)) else Inl IndexError)
          else Inl (KeyError key)
      | StrKey s \<Rightarrow> Inl (KeyError key))"

text \<open>The decimal numeral of an index, as the f-string writes it.\<close>

definition digit_char :: "nat \<Rightarrow> char" where
  "digit_char d = ''0123456789'' ! d"

fun str_nat :: "nat \<Rightarrow> string" where
  "str_nat n = (if n < 10 then [digit_char n] else str_nat (n div 10) @ [digit_char (n mod 10)])"

declare str_nat.simps [simp del]

text \<open>\<open>a or b or c\<close> on strings: the first that is not empty, else the last.\<close>

definition param_val :: "keyvals \<Rightarrow> nat \<Rightarrow> string" where
  "param_val kv ind =
     (if kv_get kv (''params_pos'' @ str_nat ind) \<noteq> [] then kv_get kv (''params_pos'' @ str_nat ind)
      else if kv_get kv (''params_local'' @ str_nat ind) \<noteq> []
      then kv_get kv (''params_local'' @ str_nat ind)
      else kv_get kv (''params_global'' @ str_nat ind))"

text \<open>
  The loop over \<open>itertools.count(1)\<close> (lines 60-69), from the index \<open>ind\<close> on.  It has
  no bound of its own: \<open>None\<close> is the loop that never leaves.
\<close>

partial_function (option) param_args :: "keyvals \<Rightarrow> nat \<Rightarrow> string list option" where
  "param_args kv ind =
     (if param_val kv ind = [] then Some []
      else Option.bind (param_args kv (Suc ind)) (\<lambda>rest. Some (param_val kv ind # rest)))"

declare param_args.simps [code]

text \<open>\<open>target_local or target_global\<close>, and the name with the instance name added.\<close>

definition raw_target :: "keyvals \<Rightarrow> string" where
  "raw_target kv =
     (if kv_get kv ''target_local'' \<noteq> [] then kv_get kv ''target_local''
      else kv_get kv ''target_global'')"

definition has_target :: "keyvals \<Rightarrow> bool" where
  "has_target kv = (raw_target kv \<noteq> [])"

definition target_name :: "keyvals \<Rightarrow> string" where
  "target_name kv =
     (if kv_get kv ''target_instname'' \<noteq> []
      then raw_target kv @ ''-'' @ kv_get kv ''target_instname''
      else raw_target kv)"

definition raw_delay :: "'f env \<Rightarrow> keyvals \<Rightarrow> 'f" where
  "raw_delay E kv = fadd E (conv_float E (kv_get kv ''delay'')) (conv_float E (kv_get kv ''delay2''))"

text \<open>Lines 71-80: an empty format is left alone, any other is formatted.\<close>

definition format_parameter :: "'f env \<Rightarrow> keyvals \<Rightarrow> string list \<Rightarrow> format_error + string" where
  "format_parameter E kv args =
     (if kv_get kv ''params_fmt'' \<noteq> []
      then vformat E get_value (kv_get kv ''params_fmt'') args
      else Inr (kv_get kv ''params_fmt''))"

text \<open>The output of lines 85-92, for a formatted parameter and a delay.\<close>

definition configured_output :: "'f env \<Rightarrow> keyvals \<Rightarrow> string \<Rightarrow> 'f \<Rightarrow> 'f Output" where
  "configured_output E kv parameter delay =
     \<lparr>o_output = kv_get kv ''out_name'', o_target = target_name kv,
      o_input = kv_get kv ''inp_name'', o_params = parameter,
      o_delay = delay, o_times = conv_int E (kv_get kv ''times'') (- 1)\<rparr>"

text \<open>\<open>found_ent.add_out(out)\<close> for the entity with the given id.\<close>

definition add_out :: "'f Output \<Rightarrow> 'f VMF \<Rightarrow> nat \<Rightarrow> 'f VMF" where
  "add_out out m i = AList.map_entry i (\<lambda>e. e\<lparr>ent_outs := ent_outs e @ [out]\<rparr>) m"

text \<open>
  One round of the loop of \<open>advanced_output\<close> for the comp\_adv\_output entity with the id
  \<open>i\<close> and the keyvalues \<open>kv\<close>.  Every \<open>continue\<close> is a branch that returns the state.
\<close>

definition advanced_output_one ::
  "'f env \<Rightarrow> nat \<Rightarrow> keyvals \<Rightarrow> 'f state \<Rightarrow> 'f state option" where
  "advanced_output_one E i kv st =
     (let st1 = st\<lparr>vmf := AList.delete i (vmf st)\<rparr> in
      if \<not> check_control_enabled E kv then Some st1
      else if \<not> has_target kv
      then Some (st1\<lparr>log := log st1 @ [NoTarget (kv_get kv ''origin'')]\<rparr>)
      else
        (let st2 = (if fneg E (raw_delay E kv)
                    then st1\<lparr>log := log st1 @ [NegativeDelay (kv_get kv ''origin'')]\<rparr>
                    else st1);
             delay = (if fneg E (raw_delay E kv) then fzero E else raw_delay E kv)
         in case param_args kv 1 of
              None \<Rightarrow> None
            | Some args \<Rightarrow>
                (case format_parameter E kv args of
                   Inl err \<Rightarrow>
                     Some (st2\<lparr>log := log st2 @
                        [FormatFailed (kv_get kv ''origin'') (kv_get kv ''params_fmt'') args]\<rparr>)
                 | Inr parameter \<Rightarrow>
                     (let found = search E (vmf st2) (kv_get kv ''out_ent'');
                          out = configured_output E kv parameter delay;
                          st3 = st2\<lparr>vmf := foldl (add_out out) (vmf st2) found\<rparr>
                      in if found = []
                         then Some (st3\<lparr>log := log st3 @
                                [NoEntities (kv_get kv ''target'') (kv_get kv ''origin'')]\<rparr>)
                         else Some st3))))"

text \<open>
  The transform: the comp\_adv\_output entities of the map, in the order of the map (the
  order in which \<open>by_class\<close> hands them out is not fixed by the source).
\<close>

fun advanced_output_loop ::
  "'f env \<Rightarrow> (nat \<times> keyvals) list \<Rightarrow> 'f state \<Rightarrow> 'f state option" where
  "advanced_output_loop E [] st = Some st"
| "advanced_output_loop E ((i, kv) # rest) st =
     Option.bind (advanced_output_one E i kv st) (advanced_output_loop E rest)"

definition advanced_output :: "'f env \<Rightarrow> 'f state \<Rightarrow> 'f state option" where
  "advanced_output E st =
     advanced_output_loop E
       (map (\<lambda>(i, e). (i, ent_keys e))
          (filter (\<lambda>(i, e). kv_get (ent_keys e) ''classname'' = ''comp_adv_output'') (vmf st)))
       st"

section \<open>Example data\<close>

text \<open>
  An entity \<open>X\<close> of the database whose keyvalue \<open>k\<close> has one alternative, tagged
  \<open>{HL2}\<close>, the fragments that declare \<open>X\<close> with \<open>k\<close> set to a value or without
  \<open>k\<close>, and two other entities.
\<close>

definition V1 :: ValueDef where
  "V1 = \<lparr>is_keyvalues = True, vname = ''k'', vtype = VT_STRING, vdesc = ''A key'',
          val_list = None, vdefault = ''1''\<rparr>"

definition V2 :: ValueDef where
  "V2 = \<lparr>is_keyvalues = True, vname = ''k'', vtype = VT_STRING, vdesc = ''A key'',
          val_list = None, vdefault = ''2''\<rparr>"

definition old_X :: "string set \<Rightarrow> string list \<Rightarrow> EntityDef" where
  "old_X tags applies =
     \<lparr>classname = ''X'', etype = POINT, desc = ''An entity'', bases = [],
      helpers = [(EXT_APPLIES_TO, applies)],
      keyvalues = [(''k'', [(tags, V1)])], inputs = [], outputs = []\<rparr>"

definition frag_X :: "category \<Rightarrow> EntityDef" where
  "frag_X kvs =
     \<lparr>classname = ''X'', etype = POINT, desc = ''An entity'', bases = [],
      helpers = [], keyvalues = kvs, inputs = [], outputs = []\<rparr>"

definition frag_Y :: EntityDef where
  "frag_Y =
     \<lparr>classname = ''Y'', etype = BRUSH, desc = ''Another entity'', bases = [],
      helpers = [], keyvalues = [], inputs = [], outputs = []\<rparr>"

definition frag_Z :: EntityDef where
  "frag_Z =
     \<lparr>classname = ''Z'', etype = BASE, desc = ''A base'', bases = [],
      helpers = [], keyvalues = [], inputs = [], outputs = []\<rparr>"

definition X_db :: "EntityDef \<Rightarrow> database" where
  "X_db ent = [''point//X.fgd'' \<mapsto> [''X'' \<mapsto> ent]]"

text \<open>A database whose file at the path of \<open>X\<close> holds another classname only.\<close>

definition stray_db :: database where
  "stray_db = [''point//X.fgd'' \<mapsto> [''W'' \<mapsto> frag_Y]]"

text \<open>
  For the export: a choices value, a key with an \<open>ENGINE\<close> alternative, an entity
  \<open>W\<close> for \<open>TF2\<close> only, and stand-ins for the functions of \<open>srctools\<close> (a matcher
  that wants every AppliesTo argument among the tags, a \<open>strip_tags\<close> and a
  \<open>collapse_bases\<close> that change nothing).
\<close>

definition V_choices :: ValueDef where
  "V_choices = \<lparr>is_keyvalues = True, vname = ''k'', vtype = VT_CHOICES, vdesc = ''A choice'',
          val_list = Some [(''0'', ''Off'', {}), (''1'', ''On'', {})], vdefault = ''0''\<rparr>"

definition ent_W :: EntityDef where
  "ent_W =
     \<lparr>classname = ''W'', etype = POINT, desc = ''For one game'', bases = [''Z''],
      helpers = [(HELPER ''size'', [''-8 -8 -8'', ''8 8 8'']), (EXT_APPLIES_TO, [''TF2''])],
      keyvalues = [], inputs = [], outputs = []\<rparr>"

definition all_in_tags :: "string set \<Rightarrow> string list \<Rightarrow> bool" where
  "all_in_tags tags applies_to = list_all (\<lambda>a. a \<in> tags) applies_to"

definition keep_tags :: "string set \<Rightarrow> EntityDef \<Rightarrow> error + EntityDef" where
  "keep_tags tags ent = Inr ent"

definition keep_bases :: "entities \<Rightarrow> entities \<Rightarrow> error + entities" where
  "keep_bases fgd es = Inr es"

definition never_int :: "string \<Rightarrow> bool" where
  "never_int s = False"

definition loaded_fgd :: entities where
  "loaded_fgd = [(''X'', old_X {''HL2''} [''HL2'']), (''W'', ent_W), (''Y'', frag_Y), (''Z'', frag_Z)]"

text \<open>
  For the transform: an environment that reads delays as integers (\<open>-1\<close> is -1, any
  other string 0), takes an entity as enabled unless its \<open>ctrl_value\<close> is \<open>0\<close>,
  returns the default of \<open>conv_int\<close>,
  finds entities by their \<open>targetname\<close>, and formats the one format \<open>{1}\<close> by a call of
  \<open>get_value\<close> on the key 1 (text without braces is returned as it is; no other format
  is used below).  A button, and two comp\_adv\_output entities with the delay -1 that
  give the button an output, the second with the format \<open>{1}\<close> and no parameter.
\<close>

definition field_vformat ::
  "(fkey \<Rightarrow> string list \<Rightarrow> format_error + string) \<Rightarrow> string \<Rightarrow> string list
     \<Rightarrow> format_error + string" where
  "field_vformat get fmt args =
     (if fmt = ''{1}'' then get (IntKey 1) args
      else if CHR ''{'' \<in> set fmt then Inl FormatError
      else if CHR ''}'' \<in> set fmt then Inl FormatError
      else Inr fmt)"

definition int_env :: "int env" where
  "int_env =
     \<lparr>check_control_enabled = (\<lambda>kv. kv_get kv ''ctrl_value'' \<noteq> ''0''),
      conv_int = (\<lambda>s d. d),
      conv_float = (\<lambda>s. if s = ''-1'' then - 1 else 0),
      fadd = (\<lambda>a b. a + b),
      fneg = (\<lambda>x. x < 0),
      fzero = 0,
      vformat = field_vformat,
      search = (\<lambda>m name. map fst (filter (\<lambda>ie. kv_get (ent_keys (snd ie)) ''targetname'' = name) m))\<rparr>"

definition button :: "int Entity" where
  "button = \<lparr>ent_keys = [(''classname'', ''func_button''), (''targetname'', ''button'')],
             ent_outs = []\<rparr>"

definition adv_keys :: "string \<Rightarrow> keyvals" where
  "adv_keys fmt =
     [(''classname'', ''comp_adv_output''), (''origin'', ''0 0 0''),
      (''out_ent'', ''button''), (''out_name'', ''OnPressed''),
      (''target_global'', ''door''), (''inp_name'', ''Open''),
      (''delay'', ''-1''), (''params_fmt'', fmt)]"

definition adv_map :: "string \<Rightarrow> int VMF" where
  "adv_map fmt = [(0, \<lparr>ent_keys = adv_keys fmt, ent_outs = []\<rparr>), (1, button)]"

section \<open>Properties of the tag algebra\<close>

lemma index_of_nth: "distinct xs \<Longrightarrow> j < length xs \<Longrightarrow> index_of xs (xs ! j) = Some j"
proof (induction xs arbitrary: j)
  case Nil
  then show ?case by simp
next
  case (Cons y ys)
  show ?case
  proof (cases j)
    case 0
    then show ?thesis by simp
  next
    case (Suc k)
    with Cons.prems have "ys ! k \<noteq> y" by auto
    with Suc Cons show ?thesis by simp
  qed
qed

lemma index_of_None: "index_of xs x = None \<longleftrightarrow> x \<notin> set xs"
  by (induction xs) auto

lemma GAME_ORDER_upper: "g \<in> set GAME_ORDER \<Longrightarrow> upper g = g"
proof -
  have "list_all (\<lambda>g. upper g = g) GAME_ORDER"
    by (simp add: GAME_ORDER_def GAMES_def upper_def upper_char_def)
  then show "g \<in> set GAME_ORDER \<Longrightarrow> upper g = g"
    by (simp add: list_all_iff)
qed

lemma GAME_ORDER_distinct: "distinct GAME_ORDER"
  by (simp add: GAME_ORDER_def GAMES_def)

lemma expand_one_game:
  assumes "j < length GAME_ORDER"
  shows "expand_one (GAME_ORDER ! j) =
     (case map_of FEATURES (GAME_ORDER ! j) of None \<Rightarrow> {} | Some fs \<Rightarrow> fs) \<union>
     (set (map (\<lambda>t. ''SINCE_'' @ t) (take (j + 1) GAME_ORDER)) \<union>
      set (map (\<lambda>t. ''UNTIL_'' @ t) (drop (j + 1) GAME_ORDER)))"
proof -
  have u: "upper (GAME_ORDER ! j) = GAME_ORDER ! j"
    using assms by (simp add: GAME_ORDER_upper)
  have i: "index_of GAME_ORDER (GAME_ORDER ! j) = Some j"
    using assms GAME_ORDER_distinct by (rule index_of_nth[rotated])
  show ?thesis unfolding expand_one_def u i by simp
qed

lemma GAME_ORDER_short: "g \<in> set GAME_ORDER \<Longrightarrow> length g \<le> 5"
proof -
  have "list_all (\<lambda>g. length g \<le> 5) GAME_ORDER"
    by (simp add: GAME_ORDER_def GAMES_def)
  then show "g \<in> set GAME_ORDER \<Longrightarrow> length g \<le> 5"
    by (simp add: list_all_iff)
qed

lemma FEATURES_short: "map_of FEATURES k = Some fs \<Longrightarrow> length k \<le> 5"
  by (auto simp: FEATURES_def split: if_splits)

lemma FEATURES_long: "map_of FEATURES k = Some fs \<Longrightarrow> x \<in> fs \<Longrightarrow> 5 < length x"
  by (auto simp: FEATURES_def split: if_splits)

lemma length_upper [simp]: "length (upper s) = length s"
  by (simp add: upper_def)

lemma expand_one_long:
  assumes "5 < length x"
  shows "expand_one x = {}"
proof -
  have "map_of FEATURES (upper x) = None"
    using FEATURES_short[of "upper x"] assms by (cases "map_of FEATURES (upper x)") auto
  moreover have "upper x \<notin> set GAME_ORDER"
    using GAME_ORDER_short[of "upper x"] assms by auto
  then have "index_of GAME_ORDER (upper x) = None"
    by (simp add: index_of_None)
  ultimately show ?thesis by (simp add: expand_one_def)
qed

lemma expand_one_members_long:
  assumes "x \<in> expand_one t"
  shows "5 < length x"
proof -
  from assms consider
    (feat) fs where "map_of FEATURES (upper t) = Some fs" "x \<in> fs"
  | (since) g where "x = ''SINCE_'' @ g"
  | (until) g where "x = ''UNTIL_'' @ g"
    by (auto simp: expand_one_def split: option.splits)
  then show ?thesis
  proof cases
    case feat
    then show ?thesis by (rule FEATURES_long)
  next
    case since
    then show ?thesis by simp
  next
    case until
    then show ?thesis by simp
  qed
qed

lemma expand_one_twice: "x \<in> expand_one t \<Longrightarrow> expand_one x = {}"
  by (rule expand_one_long) (rule expand_one_members_long)

text \<open>
  Claim C8.  Expanding an already expanded tag set adds nothing: every tag that
  \<open>expand_tags\<close> adds is longer than any game or feature-bundle name, so it expands
  to nothing itself.
\<close>

theorem expand_tags_idem: "expand_tags (expand_tags T) = expand_tags T"
  unfolding expand_tags_def using expand_one_twice by blast

text \<open>
  Claim C9.  Toggling a negated tag \<open>!X\<close> into any tag set leaves \<open>!X\<close> as a
  literal member and removes the bare token \<open>X\<close>.
\<close>

theorem add_tag_neg:
  "CHR ''!'' # X \<in> add_tag S (CHR ''!'' # X) \<and> X \<notin> add_tag S (CHR ''!'' # X)"
  by (simp add: add_tag_def is_negated_def)

text \<open>
  Claim C7.  For the release at position \<open>j\<close> of the chronological order, the
  expansion of the singleton tag set holds \<open>SINCE_r\<close> for every release \<open>r\<close> at a
  position up to \<open>j\<close>, \<open>UNTIL_r\<close> for every release at a later position, and every
  feature of the release's bundle when it has one.
\<close>

theorem expand_single_release:
  assumes "j < length GAME_ORDER"
  shows "(\<forall>i. i \<le> j \<longrightarrow> ''SINCE_'' @ GAME_ORDER ! i \<in> expand_tags {GAME_ORDER ! j})
       \<and> (\<forall>i. j < i \<and> i < length GAME_ORDER \<longrightarrow>
              ''UNTIL_'' @ GAME_ORDER ! i \<in> expand_tags {GAME_ORDER ! j})
       \<and> (\<forall>fs. map_of FEATURES (GAME_ORDER ! j) = Some fs \<longrightarrow>
              fs \<subseteq> expand_tags {GAME_ORDER ! j})"
proof (intro conjI allI impI)
  fix i assume "i \<le> j"
  then have "GAME_ORDER ! i \<in> set (take (j + 1) GAME_ORDER)"
    using assms by (auto simp: in_set_conv_nth intro!: exI[of _ i])
  then show "''SINCE_'' @ GAME_ORDER ! i \<in> expand_tags {GAME_ORDER ! j}"
    by (simp add: expand_tags_def expand_one_game[OF assms])
next
  fix i assume "j < i \<and> i < length GAME_ORDER"
  then have "GAME_ORDER ! i \<in> set (drop (j + 1) GAME_ORDER)"
    by (auto simp: in_set_conv_nth intro!: exI[of _ "i - (j + 1)"])
  then show "''UNTIL_'' @ GAME_ORDER ! i \<in> expand_tags {GAME_ORDER ! j}"
    by (simp add: expand_tags_def expand_one_game[OF assms])
next
  fix fs assume "map_of FEATURES (GAME_ORDER ! j) = Some fs"
  then show "fs \<subseteq> expand_tags {GAME_ORDER ! j}"
    by (auto simp: expand_tags_def expand_one_game[OF assms])
qed

text \<open>The release \<open>TF2\<close> (position 6): the example of the claim.\<close>

theorem expand_single_release_witness:
  "6 < length GAME_ORDER \<and> GAME_ORDER ! 6 = ''TF2'' \<and>
   {''INSTANCING'', ''PROP_SCALING'',
    ''SINCE_HLS'', ''SINCE_DODS'', ''SINCE_CSS'', ''SINCE_HL2'', ''SINCE_EP1'', ''SINCE_EP2'',
    ''SINCE_TF2'',
    ''UNTIL_P1'', ''UNTIL_L4D'', ''UNTIL_L4D2'', ''UNTIL_ASW'', ''UNTIL_P2'', ''UNTIL_CSGO'',
    ''UNTIL_SFM'', ''UNTIL_DOTA2'', ''UNTIL_PUNT'', ''UNTIL_P2DES''} \<subseteq> expand_tags {''TF2''}"
proof -
  have len: "6 < length GAME_ORDER" and g: "GAME_ORDER ! 6 = ''TF2''"
    by (simp_all add: GAME_ORDER_def GAMES_def)
  have f: "map_of FEATURES ''TF2'' = Some {''INSTANCING'', ''PROP_SCALING''}"
    by (simp add: FEATURES_def)
  note r = expand_single_release[OF len, unfolded g]
  from r have s: "i \<le> 6 \<Longrightarrow> ''SINCE_'' @ GAME_ORDER ! i \<in> expand_tags {''TF2''}" for i
    by blast
  from r have u: "6 < i \<Longrightarrow> i < length GAME_ORDER \<Longrightarrow>
      ''UNTIL_'' @ GAME_ORDER ! i \<in> expand_tags {''TF2''}" for i
    by blast
  from r f have b: "{''INSTANCING'', ''PROP_SCALING''} \<subseteq> expand_tags {''TF2''}"
    by blast
  have "{''SINCE_HLS'', ''SINCE_DODS'', ''SINCE_CSS'', ''SINCE_HL2'', ''SINCE_EP1'', ''SINCE_EP2'',
    ''SINCE_TF2''} \<subseteq> expand_tags {''TF2''}"
    using s[of 0] s[of 1] s[of 2] s[of 3] s[of 4] s[of 5] s[of 6]
    by (simp add: GAME_ORDER_def GAMES_def)
  moreover have "{''UNTIL_P1'', ''UNTIL_L4D'', ''UNTIL_L4D2'', ''UNTIL_ASW'', ''UNTIL_P2'',
    ''UNTIL_CSGO'', ''UNTIL_SFM'', ''UNTIL_DOTA2'', ''UNTIL_PUNT'', ''UNTIL_P2DES''}
      \<subseteq> expand_tags {''TF2''}"
    using u[of 7] u[of 8] u[of 9] u[of 10] u[of 11] u[of 12] u[of 13] u[of 14] u[of 15] u[of 16]
    by (simp add: GAME_ORDER_def GAMES_def)
  ultimately show ?thesis using len g b by simp
qed

section \<open>Properties of the import\<close>



subsection \<open>Strings and lists\<close>

lemma substring_in_prefix: "prefix xs ys \<Longrightarrow> substring_in xs ys"
  by (cases ys) auto

lemma substring_in_append: "substring_in xs (ys @ xs @ zs)"
proof (induction ys)
  case Nil
  show ?case by (simp add: substring_in_prefix)
next
  case (Cons y ys)
  then show ?case by simp
qed

lemma substring_in_refl: "substring_in xs xs"
  by (simp add: substring_in_prefix)

lemma substring_in_suffix: "substring_in xs (ys @ xs)"
  using substring_in_append[of xs ys "[]"] by simp

lemma append_new_id: "set ys \<subseteq> set xs \<Longrightarrow> append_new xs ys = xs"
  unfolding append_new_def by (induction ys) auto

lemma append_new_split:
  "\<exists>zs. append_new xs ys = xs @ zs \<and> set zs \<subseteq> set ys - set xs"
  unfolding append_new_def
proof (induction ys arbitrary: xs)
  case Nil
  show ?case by simp
next
  case (Cons y ys)
  show ?case
  proof (cases "y \<in> set xs")
    case True
    with Cons.IH[of xs] show ?thesis by auto
  next
    case False
    from Cons.IH[of "xs @ [y]"] obtain zs where
      "foldl (\<lambda>acc y. if y \<in> set acc then acc else acc @ [y]) (xs @ [y]) ys = (xs @ [y]) @ zs"
      "set zs \<subseteq> set ys - set (xs @ [y])" by blast
    with False show ?thesis by (intro exI[of _ "y # zs"]) auto
  qed
qed

lemma set_append_new: "set (append_new xs ys) = set xs \<union> set ys"
  unfolding append_new_def by (induction ys arbitrary: xs) auto

lemma append_new_idem: "append_new (append_new xs ys) ys = append_new xs ys"
  by (rule append_new_id) (simp add: set_append_new)

subsection \<open>Association lists\<close>

lemma update_fresh: "k \<notin> fst ` set al \<Longrightarrow> AList.update k v al = al @ [(k, v)]"
  by (induction al) auto

lemma update_value_in: "(k, v) \<in> set (AList.update k v al)"
  by (induction al) auto

lemma foldl_fixed: "(\<And>x. x \<in> set xs \<Longrightarrow> f a x = a) \<Longrightarrow> foldl f a xs = a"
  by (induction xs) auto

lemma retag_acc_keys:
  "fst ` set (foldl (\<lambda>acc (tag, v). AList.update (f tag) v acc) acc tm)
     = fst ` set acc \<union> f ` fst ` set tm"
proof (induction tm arbitrary: acc)
  case Nil
  show ?case by simp
next
  case (Cons kv tm)
  obtain k v where kv: "kv = (k, v)" by (cases kv)
  have "fst ` set (foldl (\<lambda>acc (tag, v). AList.update (f tag) v acc) (AList.update (f k) v acc) tm)
     = fst ` set (AList.update (f k) v acc) \<union> f ` fst ` set tm"
    by (rule Cons.IH)
  then show ?case unfolding dom_update kv by auto
qed

lemma retag_acc_distinct:
  "distinct (map fst acc) \<Longrightarrow>
   distinct (map fst (foldl (\<lambda>acc (tag, v). AList.update (f tag) v acc) acc tm))"
  by (induction tm arbitrary: acc) (auto simp: distinct_update)

lemma retag_acc_fixed:
  "distinct (map fst (acc @ tm)) \<Longrightarrow> (\<And>k. k \<in> fst ` set tm \<Longrightarrow> f k = k) \<Longrightarrow>
   foldl (\<lambda>acc (tag, v). AList.update (f tag) v acc) acc tm = acc @ tm"
proof (induction tm arbitrary: acc)
  case Nil
  show ?case by simp
next
  case (Cons kv tm)
  obtain k v where kv: "kv = (k, v)" by (cases kv)
  have fk: "f k = k" using Cons.prems(2)[of k] kv by simp
  have fresh: "k \<notin> fst ` set acc" using Cons.prems(1) kv by auto
  have "foldl (\<lambda>acc (tag, v). AList.update (f tag) v acc) (acc @ [(k, v)]) tm = (acc @ [(k, v)]) @ tm"
    using Cons.prems kv by (intro Cons.IH) auto
  then show ?case using kv fk fresh by (simp add: update_fresh)
qed

lemma retag_fixed:
  "distinct (map fst tm) \<Longrightarrow> (\<And>k. k \<in> fst ` set tm \<Longrightarrow> add_tag k t = k) \<Longrightarrow> retag t tm = tm"
  unfolding retag_def using retag_acc_fixed[of "[]" tm "\<lambda>k. add_tag k t"] by simp

lemma add_tag_neg_idem: "add_tag (add_tag s (CHR ''!'' # E)) (CHR ''!'' # E) = add_tag s (CHR ''!'' # E)"
  by (auto simp: add_tag_def is_negated_def)

lemma retag_neg_idem:
  "retag (CHR ''!'' # E) (retag (CHR ''!'' # E) tm) = retag (CHR ''!'' # E) tm"
proof (rule retag_fixed)
  show "distinct (map fst (retag (CHR ''!'' # E) tm))"
    unfolding retag_def by (rule retag_acc_distinct) simp
next
  fix k assume "k \<in> fst ` set (retag (CHR ''!'' # E) tm)"
  then have "k \<in> (\<lambda>s. add_tag s (CHR ''!'' # E)) ` fst ` set tm"
    unfolding retag_def retag_acc_keys by simp
  then show "add_tag k (CHR ''!'' # E) = k"
    by (auto simp: add_tag_neg_idem)
qed

subsection \<open>A category that already holds the fragment\<close>

lemma untagged_map_cases:
  assumes "untagged_map tm"
  obtains "tm = []" | v where "tm = [({}, v)]"
proof (cases tm)
  case Nil
  then show ?thesis using that by simp
next
  case (Cons a rest)
  obtain t v where a: "a = (t, v)" by (cases a)
  have t: "t = {}" using assms Cons a by (simp add: untagged_map_def)
  have "rest = []"
  proof (cases rest)
    case Nil
    then show ?thesis .
  next
    case (Cons b rest')
    obtain t' v' where b: "b = (t', v')" by (cases b)
    from assms \<open>tm = a # rest\<close> Cons a b t show ?thesis
      by (auto simp: untagged_map_def)
  qed
  with Cons a t that show ?thesis by simp
qed

lemma find_value_Some:
  "v \<in> snd ` set orig \<Longrightarrow> \<exists>t. find (\<lambda>(old_tag, old_value). old_value = v) orig = Some (t, v)"
  by (induction orig) auto

lemma find_value_None:
  "find (\<lambda>(old_tag, old_value). old_value = v) orig = None \<longleftrightarrow> v \<notin> snd ` set orig"
  by (induction orig) auto

lemma merge_tag_map_fixed:
  assumes "untagged_map tm" "holds_value orig tm"
  shows "merge_tag_map E orig tm = orig"
  using assms(1)
proof (cases rule: untagged_map_cases)
  case 1
  then show ?thesis by (simp add: merge_tag_map_def)
next
  case (2 v)
  with assms(2) have "v \<in> snd ` set orig" by (simp add: holds_value_def)
  from find_value_Some[OF this] obtain t where
    "find (\<lambda>(old_tag, old_value). old_value = v) orig = Some (t, v)" by blast
  with 2 show ?thesis by (simp add: merge_tag_map_def merge_value_def)
qed

lemma merge_tag_map_holds:
  assumes "untagged_map tm"
  shows "holds_value (merge_tag_map E orig tm) tm"
  using assms
proof (cases rule: untagged_map_cases)
  case 1
  then show ?thesis by (simp add: holds_value_def)
next
  case (2 v)
  show ?thesis
  proof (cases "find (\<lambda>(old_tag, old_value). old_value = v) orig")
    case None
    have "(add_tag {} E, v) \<in> set (AList.update (add_tag {} E) v orig)"
      by (rule update_value_in)
    then have "v \<in> snd ` set (AList.update (add_tag {} E) v orig)"
      by (rule rev_image_eqI) simp
    with 2 None show ?thesis
      by (simp add: merge_tag_map_def merge_value_def holds_value_def)
  next
    case (Some a)
    then have "v \<in> snd ` set orig" using find_value_None[of v orig] by auto
    with 2 Some show ?thesis
      by (auto simp: merge_tag_map_def merge_value_def holds_value_def)
  qed
qed

lemma retag_holds:
  assumes "untagged_map tm"
  shows "holds_value (retag E tm) tm"
  using assms
proof (cases rule: untagged_map_cases)
  case 1
  then show ?thesis by (simp add: holds_value_def)
next
  case (2 v)
  then show ?thesis by (simp add: holds_value_def retag_def)
qed

lemma merge_name_fixed:
  assumes "untagged_cat new" "covers cur new" "x \<in> set new"
  shows "merge_name E cur x = cur"
proof -
  obtain n tm where x: "x = (n, tm)" by (cases x)
  from assms x have u: "untagged_map tm"
    by (auto simp: untagged_cat_def list_all_iff)
  from assms x obtain orig where o: "map_of cur n = Some orig" "holds_value orig tm"
    by (auto simp: covers_def list_all_iff split: option.splits)
  have "merge_tag_map E orig tm = orig" using u o(2) by (rule merge_tag_map_fixed)
  then show ?thesis using x o(1) by (simp add: merge_name_def update_triv)
qed

lemma merge_category_fixed:
  assumes "untagged_cat new" "covers cur new" "narrowed E cur new"
  shows "merge_category E cur new = cur"
proof -
  have m: "foldl (merge_name E) cur new = cur"
    by (rule foldl_fixed) (rule merge_name_fixed[OF assms(1,2)])
  have "map (\<lambda>(name, tm). if name \<notin> set (map fst new) then (name, retag (CHR ''!'' # E) tm)
                else (name, tm)) cur = cur"
    using assms(3) by (intro map_idI) (auto simp: narrowed_def list_all_iff)
  then show ?thesis by (simp add: merge_category_def m)
qed

lemma merge_name_other: "n \<noteq> fst x \<Longrightarrow> map_of (merge_name E cur x) n = map_of cur n"
  by (cases x) (simp add: merge_name_def update_conv' split: option.splits)

lemma foldl_merge_name_other:
  "n \<notin> fst ` set new \<Longrightarrow> map_of (foldl (merge_name E) cur new) n = map_of cur n"
  by (induction new arbitrary: cur) (auto simp: merge_name_other)

lemma merge_name_at:
  "map_of (merge_name E cur (n, tm)) n =
     Some (case map_of cur n of None \<Rightarrow> retag E tm | Some orig \<Rightarrow> merge_tag_map E orig tm)"
  by (simp add: merge_name_def update_conv' split: option.splits)

lemma foldl_merge_name_at:
  "distinct (map fst new) \<Longrightarrow> (n, tm) \<in> set new \<Longrightarrow>
   map_of (foldl (merge_name E) cur new) n =
     Some (case map_of cur n of None \<Rightarrow> retag E tm | Some orig \<Rightarrow> merge_tag_map E orig tm)"
proof (induction new arbitrary: cur)
  case Nil
  then show ?case by simp
next
  case (Cons x new)
  show ?case
  proof (cases "x = (n, tm)")
    case True
    with Cons.prems(1) have "n \<notin> fst ` set new" by auto
    then have "map_of (foldl (merge_name E) (merge_name E cur (n, tm)) new) n
        = map_of (merge_name E cur (n, tm)) n"
      by (rule foldl_merge_name_other)
    with True show ?thesis by (simp add: merge_name_at)
  next
    case False
    with Cons.prems have in_new: "(n, tm) \<in> set new" by simp
    with Cons.prems(1) have ne: "n \<noteq> fst x" by (auto simp: image_iff)
    have "map_of (foldl (merge_name E) (merge_name E cur x) new) n =
      Some (case map_of (merge_name E cur x) n of None \<Rightarrow> retag E tm
            | Some orig \<Rightarrow> merge_tag_map E orig tm)"
      using Cons.prems(1) in_new by (intro Cons.IH) auto
    then show ?thesis by (simp add: merge_name_other[OF ne])
  qed
qed

lemma map_of_narrow_kept:
  "n \<in> N \<Longrightarrow>
   map_of (map (\<lambda>(name, tm). if name \<notin> N then (name, g tm) else (name, tm)) xs) n = map_of xs n"
  by (induction xs) auto

lemma merge_category_at:
  assumes "distinct (map fst new)" "(n, tm) \<in> set new"
  shows "map_of (merge_category E cur new) n =
     Some (case map_of cur n of None \<Rightarrow> retag E tm | Some orig \<Rightarrow> merge_tag_map E orig tm)"
proof -
  have "n \<in> set (map fst new)" using assms(2) by (auto simp: image_iff intro: bexI[of _ "(n, tm)"])
  then show ?thesis
    unfolding merge_category_def Let_def
    by (simp only: map_of_narrow_kept foldl_merge_name_at[OF assms])
qed

lemma merge_category_covers:
  assumes "untagged_cat new"
  shows "covers (merge_category E cur new) new"
  unfolding covers_def list_all_iff
proof (rule ballI)
  fix x assume x: "x \<in> set new"
  obtain n tm where nt: "x = (n, tm)" by (cases x)
  from assms x nt have u: "untagged_map tm" and d: "distinct (map fst new)"
    by (auto simp: untagged_cat_def list_all_iff)
  have h: "holds_value (case map_of cur n of None \<Rightarrow> retag E tm
              | Some orig \<Rightarrow> merge_tag_map E orig tm) tm"
    using retag_holds[OF u] merge_tag_map_holds[OF u] by (simp split: option.splits)
  show "case x of (n, tm) \<Rightarrow>
          case map_of (merge_category E cur new) n of None \<Rightarrow> False
          | Some orig \<Rightarrow> holds_value orig tm"
    using x nt h by (simp add: merge_category_at[OF d])
qed

lemma merge_category_narrowed: "narrowed E (merge_category E cur new) new"
  unfolding narrowed_def merge_category_def Let_def list_all_iff
  by (auto simp: retag_neg_idem split: if_splits)

lemma merge_category_idem:
  assumes "untagged_cat new"
  shows "merge_category E (merge_category E cur new) new = merge_category E cur new"
  using assms merge_category_covers[OF assms] merge_category_narrowed
  by (rule merge_category_fixed)

lemma merge_category_self:
  assumes "untagged_cat new"
  shows "merge_category E new new = new"
proof (rule merge_category_fixed[OF assms])
  have d: "distinct (map fst new)" using assms by (simp add: untagged_cat_def)
  show "covers new new"
    unfolding covers_def list_all_iff
  proof (rule ballI)
    fix x assume x: "x \<in> set new"
    obtain n tm where nt: "x = (n, tm)" by (cases x)
    have "map_of new n = Some tm" using d x nt by simp
    moreover have "holds_value tm tm" by (force simp: holds_value_def list_all_iff)
    ultimately show "case x of (n, tm) \<Rightarrow>
          case map_of new n of None \<Rightarrow> False | Some orig \<Rightarrow> holds_value orig tm"
      using nt by simp
  qed
  show "narrowed E new new"
    by (force simp: narrowed_def list_all_iff)
qed

subsection \<open>The AppliesTo helper after two imports\<close>

lemma sort_remdups_cong: "set xs = set ys \<Longrightarrow> sort (remdups xs) = sort (remdups ys)"
  by (metis sorted_list_of_set_sort_remdups)

lemma set_sort_remdups: "set (sort (remdups xs)) = set xs"
  by simp

lemma appliesto_pos_le: "appliesto_pos hs \<le> length (filter (\<lambda>h. \<not> is_appliesto h) hs)"
proof -
  have "length (takeWhile P hs) \<le> length (filter P hs)" for P :: "helper \<Rightarrow> bool"
    by (induction hs) auto
  then show ?thesis by (simp add: appliesto_pos_def)
qed

lemma set_appliesto_eq:
  "set_appliesto E ent =
     ent\<lparr>helpers :=
       take (appliesto_pos (helpers ent)) (filter (\<lambda>h. \<not> is_appliesto h) (helpers ent))
       @ (EXT_APPLIES_TO,
          if E \<in> set (appliesto_args (helpers ent)) then appliesto_args (helpers ent)
          else appliesto_args (helpers ent) @ [E])
       # drop (appliesto_pos (helpers ent)) (filter (\<lambda>h. \<not> is_appliesto h) (helpers ent))\<rparr>"
proof -
  define rest where "rest = filter (\<lambda>h. \<not> is_appliesto h) (helpers ent)"
  define pos where "pos = appliesto_pos (helpers ent)"
  have len: "length (take pos rest) = pos"
    using appliesto_pos_le[of "helpers ent"] by (simp add: rest_def pos_def)
  have upd: "(take pos rest @ x # drop pos rest)[pos := y] = take pos rest @ y # drop pos rest"
    for x y :: helper
    using list_update_length[of "take pos rest" x "drop pos rest" y] len by simp
  have nth: "(take pos rest @ x # drop pos rest) ! pos = x" for x :: helper
    using nth_append_length[of "take pos rest" x "drop pos rest"] len by simp
  show ?thesis
    unfolding set_appliesto_def get_appliesto_def appliesto_append_def Let_def
      rest_def[symmetric] pos_def[symmetric]
    by (simp add: upd nth)
qed

lemma appliesto_pos_at:
  assumes "list_all (\<lambda>h. \<not> is_appliesto h) pre"
  shows "appliesto_pos (pre @ (EXT_APPLIES_TO, a) # zs) = length pre"
proof -
  have "takeWhile (\<lambda>h. \<not> is_appliesto h) (pre @ (EXT_APPLIES_TO, a) # zs) = pre"
    using assms by (simp add: list_all_iff is_appliesto_def)
  moreover have "list_ex is_appliesto (pre @ (EXT_APPLIES_TO, a) # zs)"
    by (simp add: is_appliesto_def)
  ultimately show ?thesis by (simp add: appliesto_pos_def)
qed

lemma second_norm:
  assumes pre: "list_all (\<lambda>h. \<not> is_appliesto h) pre"
    and post: "list_all (\<lambda>h. \<not> is_appliesto h) post"
    and Y: "list_all is_appliesto Y"
    and E: "E \<in> set a1"
    and sub: "\<And>y. y \<in> set Y \<Longrightarrow> set (snd y) \<subseteq> set a1"
    and hs: "helpers ent = pre @ (EXT_APPLIES_TO, a1) # post @ Y"
  shows "helpers (set_appliesto E ent) = pre @ (EXT_APPLIES_TO, sort (remdups a1)) # post"
proof -
  have pos: "appliesto_pos (helpers ent) = length pre"
    unfolding hs using pre by (rule appliesto_pos_at)
  have fY: "filter (\<lambda>h. \<not> is_appliesto h) Y = []" "filter is_appliesto Y = Y"
    using Y by (auto simp: list_all_iff filter_empty_conv filter_id_conv)
  have fpre: "filter (\<lambda>h. \<not> is_appliesto h) pre = pre" "filter is_appliesto pre = []"
    using pre by (auto simp: list_all_iff filter_empty_conv filter_id_conv)
  have fpost: "filter (\<lambda>h. \<not> is_appliesto h) post = post" "filter is_appliesto post = []"
    using post by (auto simp: list_all_iff filter_empty_conv filter_id_conv)
  have at: "is_appliesto (EXT_APPLIES_TO, a1)" by (simp add: is_appliesto_def)
  have rest: "filter (\<lambda>h. \<not> is_appliesto h) (helpers ent) = pre @ post"
    unfolding hs by (simp add: fY fpre fpost at)
  have ats: "filter is_appliesto (helpers ent) = (EXT_APPLIES_TO, a1) # Y"
    unfolding hs by (simp add: fY fpre fpost at)
  have c: "set (a1 @ concat (map snd Y)) = set a1"
    using sub by auto
  have "appliesto_args (helpers ent) = sort (remdups (a1 @ concat (map snd Y)))"
    unfolding appliesto_args_def ats by simp
  also have "\<dots> = sort (remdups a1)"
    using c by (rule sort_remdups_cong)
  finally have args: "appliesto_args (helpers ent) = sort (remdups a1)" .
  have "E \<in> set (appliesto_args (helpers ent))"
    unfolding args using E by simp
  then show ?thesis
    by (simp add: set_appliesto_eq pos rest) (simp add: args)
qed

lemma helpers_twice:
  assumes sub: "set N \<subseteq> set (helpers m)"
    and m': "helpers m' = append_new (helpers (set_appliesto E m)) N"
  shows "map canon_helper (helpers (set_appliesto E m'))
       = map canon_helper (helpers (set_appliesto E m))"
proof -
  define A where "A = helpers m"
  define rest where "rest = filter (\<lambda>h. \<not> is_appliesto h) A"
  define pre where "pre = take (appliesto_pos A) rest"
  define post where "post = drop (appliesto_pos A) rest"
  define a1 where "a1 = (if E \<in> set (appliesto_args A) then appliesto_args A
                         else appliesto_args A @ [E])"
  have H1: "helpers (set_appliesto E m) = pre @ (EXT_APPLIES_TO, a1) # post"
    by (simp add: set_appliesto_eq pre_def post_def a1_def rest_def A_def)
  have prepost: "pre @ post = rest" by (simp add: pre_def post_def)
  have restP: "list_all (\<lambda>h. \<not> is_appliesto h) rest"
    by (simp add: rest_def list_all_iff)
  then have preP: "list_all (\<lambda>h. \<not> is_appliesto h) pre"
    and postP: "list_all (\<lambda>h. \<not> is_appliesto h) post"
    unfolding prepost[symmetric] by simp_all
  have Ea: "E \<in> set a1" by (simp add: a1_def)
  from append_new_split[of "helpers (set_appliesto E m)" N] obtain Y where
    Y: "append_new (helpers (set_appliesto E m)) N = helpers (set_appliesto E m) @ Y"
       "set Y \<subseteq> set N - set (helpers (set_appliesto E m))" by blast
  have Yat: "is_appliesto y \<and> set (snd y) \<subseteq> set a1" if "y \<in> set Y" for y
  proof -
    from that Y(2) sub have yA: "y \<in> set A" and yH: "y \<notin> set (pre @ (EXT_APPLIES_TO, a1) # post)"
      by (auto simp: A_def H1)
    have at: "is_appliesto y"
    proof (rule ccontr)
      assume "\<not> is_appliesto y"
      with yA have "y \<in> set rest" by (simp add: rest_def)
      then have "y \<in> set (pre @ post)" by (simp only: prepost)
      with yH show False by auto
    qed
    from yA at have "snd y \<in> set (map snd (filter is_appliesto A))" by auto
    then have "set (snd y) \<subseteq> set (concat (map snd (filter is_appliesto A)))" by auto
    then have "set (snd y) \<subseteq> set (appliesto_args A)" by (simp add: appliesto_args_def)
    then have "set (snd y) \<subseteq> set a1" by (auto simp: a1_def)
    with at show ?thesis by simp
  qed
  have "helpers m' = helpers (set_appliesto E m) @ Y"
    by (simp only: m' Y(1))
  then have hs: "helpers m' = pre @ (EXT_APPLIES_TO, a1) # post @ Y"
    by (simp add: H1)
  have H2: "helpers (set_appliesto E m') = pre @ (EXT_APPLIES_TO, sort (remdups a1)) # post"
    using preP postP _ Ea _ hs
  proof (rule second_norm)
    show "list_all is_appliesto Y" using Yat by (simp add: list_all_iff)
    show "set (snd y) \<subseteq> set a1" if "y \<in> set Y" for y using Yat[OF that] by simp
  qed
  have "distinct (appliesto_args A)" by (simp add: appliesto_args_def)
  then have da: "distinct a1" by (simp add: a1_def)
  have "sort (sort (remdups a1)) = sort (remdups a1)"
    by (rule sorted_sort_id) simp
  with da have "sort (sort (remdups a1)) = sort a1"
    by (simp add: distinct_remdups_id)
  then show ?thesis
    by (simp add: H1 H2 canon_helper_def is_appliesto_def)
qed

subsection \<open>Importing the same fragment again\<close>

lemma set_appliesto_fields:
  "classname (set_appliesto E ent) = classname ent"
  "etype (set_appliesto E ent) = etype ent"
  "desc (set_appliesto E ent) = desc ent"
  "bases (set_appliesto E ent) = bases ent"
  "keyvalues (set_appliesto E ent) = keyvalues ent"
  "inputs (set_appliesto E ent) = inputs ent"
  "outputs (set_appliesto E ent) = outputs ent"
  by (simp_all add: set_appliesto_eq)

lemma again_same:
  assumes u: "untagged new_ent"
    and hs: "set (helpers new_ent) \<subseteq> set (helpers m)"
    and bs: "set (bases new_ent) \<subseteq> set (bases m)"
    and ds: "substring_in (desc new_ent) (desc m)"
    and kv: "merge_category E (keyvalues m) (keyvalues new_ent) = keyvalues m"
    and inp: "merge_category E (inputs m) (inputs new_ent) = inputs m"
    and out: "merge_category E (outputs m) (outputs new_ent) = outputs m"
  shows "(set_appliesto E (merge_ent E (set_appliesto E m) new_ent))
            \<lparr>helpers := map canon_helper
               (helpers (set_appliesto E (merge_ent E (set_appliesto E m) new_ent)))\<rparr>
       = (set_appliesto E m)\<lparr>helpers := map canon_helper (helpers (set_appliesto E m))\<rparr>"
proof -
  define e1 where "e1 = set_appliesto E m"
  define m' where "m' = merge_ent E e1 new_ent"
  have h: "helpers m' = append_new (helpers (set_appliesto E m)) (helpers new_ent)"
    by (simp add: m'_def merge_ent_def e1_def)
  have H: "map canon_helper (helpers (set_appliesto E m')) = map canon_helper (helpers e1)"
    unfolding e1_def using hs h by (rule helpers_twice)
  have f: "classname m' = classname e1" "etype m' = etype e1" "desc m' = desc e1"
    "bases m' = bases e1" "keyvalues m' = keyvalues e1" "inputs m' = inputs e1"
    "outputs m' = outputs e1"
    using bs ds kv inp out
    by (simp_all add: m'_def merge_ent_def e1_def set_appliesto_fields append_new_id)
  have "(set_appliesto E m')\<lparr>helpers := map canon_helper (helpers (set_appliesto E m'))\<rparr>
      = e1\<lparr>helpers := map canon_helper (helpers e1)\<rparr>"
    by (rule EntityDef.equality) (simp_all add: set_appliesto_fields f H)
  then show ?thesis by (simp add: m'_def e1_def)
qed

lemma merged_again_same:
  assumes u: "untagged new_ent"
  shows "(set_appliesto E (merge_ent E (set_appliesto E (merge_ent E ent new_ent)) new_ent))
            \<lparr>helpers := map canon_helper
               (helpers (set_appliesto E (merge_ent E (set_appliesto E (merge_ent E ent new_ent)) new_ent)))\<rparr>
       = (set_appliesto E (merge_ent E ent new_ent))
            \<lparr>helpers := map canon_helper (helpers (set_appliesto E (merge_ent E ent new_ent)))\<rparr>"
  using u
proof (rule again_same)
  from u have uc: "untagged_cat (keyvalues new_ent)" "untagged_cat (inputs new_ent)"
    "untagged_cat (outputs new_ent)" by (simp_all add: untagged_def)
  show "set (helpers new_ent) \<subseteq> set (helpers (merge_ent E ent new_ent))"
    by (simp add: merge_ent_def set_append_new)
  show "set (bases new_ent) \<subseteq> set (bases (merge_ent E ent new_ent))"
    by (simp add: merge_ent_def set_append_new)
  show "substring_in (desc new_ent) (desc (merge_ent E ent new_ent))"
    using substring_in_suffix[of "desc new_ent" "desc ent @ ''|||''"]
    by (simp add: merge_ent_def)
  show "merge_category E (keyvalues (merge_ent E ent new_ent)) (keyvalues new_ent)
      = keyvalues (merge_ent E ent new_ent)"
    by (simp add: merge_ent_def merge_category_idem[OF uc(1)])
  show "merge_category E (inputs (merge_ent E ent new_ent)) (inputs new_ent)
      = inputs (merge_ent E ent new_ent)"
    by (simp add: merge_ent_def merge_category_idem[OF uc(2)])
  show "merge_category E (outputs (merge_ent E ent new_ent)) (outputs new_ent)
      = outputs (merge_ent E ent new_ent)"
    by (simp add: merge_ent_def merge_category_idem[OF uc(3)])
qed

lemma new_again_same:
  assumes u: "untagged new_ent"
  shows "(set_appliesto E (merge_ent E (set_appliesto E new_ent) new_ent))
            \<lparr>helpers := map canon_helper
               (helpers (set_appliesto E (merge_ent E (set_appliesto E new_ent) new_ent)))\<rparr>
       = (set_appliesto E new_ent)
            \<lparr>helpers := map canon_helper (helpers (set_appliesto E new_ent))\<rparr>"
  using u
proof (rule again_same)
  from u have uc: "untagged_cat (keyvalues new_ent)" "untagged_cat (inputs new_ent)"
    "untagged_cat (outputs new_ent)" by (simp_all add: untagged_def)
  show "substring_in (desc new_ent) (desc new_ent)" by (rule substring_in_refl)
  show "merge_category E (keyvalues new_ent) (keyvalues new_ent) = keyvalues new_ent"
    by (rule merge_category_self[OF uc(1)])
  show "merge_category E (inputs new_ent) (inputs new_ent) = inputs new_ent"
    by (rule merge_category_self[OF uc(2)])
  show "merge_category E (outputs new_ent) (outputs new_ent) = outputs new_ent"
    by (rule merge_category_self[OF uc(3)])
qed simp_all

text \<open>
  What a repeated import keeps.  When an untagged fragment has been imported under an
  engine tag, importing it again under the same tag succeeds and leaves the entity as it
  was in every field (classname, kind, description, bases, and the three category tag
  maps); the helper list is the same but for the order of the arguments of its AppliesTo
  helper.
\<close>

theorem import_twice_same:
  assumes u: "untagged new_ent"
    and i1: "import_ent E dbase new_ent = Inr dbase1"
  shows "\<exists>dbase2 e1 e2. import_ent E dbase1 new_ent = Inr dbase2
      \<and> stored dbase1 new_ent = Some e1 \<and> stored dbase2 new_ent = Some e2
      \<and> same_entity e2 e1"
proof (cases "dbase (ent_path new_ent)")
  case None
  with i1 have d1: "dbase1 = dbase(ent_path new_ent \<mapsto>
                 [classname new_ent \<mapsto> set_appliesto E new_ent])"
    by (simp add: import_ent_def)
  show ?thesis
    unfolding d1 import_ent_def stored_def same_entity_def
    using new_again_same[OF u, of E] by simp
next
  case (Some old_fgd)
  show ?thesis
  proof (cases "old_fgd (classname new_ent)")
    case None
    with Some i1 show ?thesis by (simp add: import_ent_def)
  next
    case (Some ent)
    with \<open>dbase (ent_path new_ent) = Some old_fgd\<close> i1
    have d1: "dbase1 = dbase(ent_path new_ent \<mapsto>
        old_fgd(classname new_ent \<mapsto> set_appliesto E (merge_ent E ent new_ent)))"
      by (simp add: import_ent_def)
    show ?thesis
      unfolding d1 import_ent_def stored_def same_entity_def
      using merged_again_same[OF u, of E ent] by simp
  qed
qed

subsection \<open>The examples\<close>

lemma X_once:
  "set_appliesto ''EP1'' (merge_ent ''EP1'' (old_X {''HL2''} [''HL2'']) (frag_X [(''k'', [({}, V1)])]))
     = old_X {''HL2''} [''HL2'', ''EP1'']"
  by code_simp

lemma X_twice:
  "set_appliesto ''EP1''
     (merge_ent ''EP1'' (old_X {''HL2''} [''HL2'', ''EP1'']) (frag_X [(''k'', [({}, V1)])]))
     = old_X {''HL2''} [''EP1'', ''HL2'']"
  by code_simp

lemma example_paths:
  "ent_path (frag_X kvs) = ''point//X.fgd''" "classname (frag_X kvs) = ''X''"
  "ent_path frag_Y = ''brush/Y.fgd''" "classname frag_Y = ''Y''"
  "ent_path frag_Z = ''bases/Z.fgd''" "classname frag_Z = ''Z''"
  by (simp_all add: ent_path_def frag_X_def frag_Y_def frag_Z_def)

lemma frag_X_untagged: "untagged (frag_X [(''k'', [({}, v)])])"
  by (simp add: untagged_def untagged_cat_def untagged_map_def frag_X_def)

theorem import_twice_same_witness:
  "untagged (frag_X [(''k'', [({}, V1)])])
   \<and> import_ent ''EP1'' (X_db (old_X {''HL2''} [''HL2''])) (frag_X [(''k'', [({}, V1)])])
       = Inr (X_db (old_X {''HL2''} [''HL2'', ''EP1'']))
   \<and> (\<exists>dbase2 e1 e2.
        import_ent ''EP1'' (X_db (old_X {''HL2''} [''HL2'', ''EP1''])) (frag_X [(''k'', [({}, V1)])])
          = Inr dbase2
        \<and> stored (X_db (old_X {''HL2''} [''HL2'', ''EP1''])) (frag_X [(''k'', [({}, V1)])]) = Some e1
        \<and> stored dbase2 (frag_X [(''k'', [({}, V1)])]) = Some e2
        \<and> same_entity e2 e1)"
proof -
  have i: "import_ent ''EP1'' (X_db (old_X {''HL2''} [''HL2''])) (frag_X [(''k'', [({}, V1)])])
       = Inr (X_db (old_X {''HL2''} [''HL2'', ''EP1'']))"
    by (simp add: import_ent_def X_db_def example_paths X_once)
  show ?thesis
    using frag_X_untagged[of V1] i import_twice_same[OF frag_X_untagged[of V1] i] by blast
qed

text \<open>
  Claim C3, on the code.  The entity \<open>X\<close> of the database has the helper
  \<open>AppliesTo(HL2)\<close>.  The first import of the fragment under \<open>EP1\<close> appends the engine
  tag to the sorted argument list and writes \<open>AppliesTo(HL2, EP1)\<close>; the second import of
  the same fragment sorts the list it reads and writes \<open>AppliesTo(EP1, HL2)\<close>: the entity
  after two imports is not the entity after one.
\<close>

theorem import_twice_reorders_appliesto:
  "import_ent ''EP1'' (X_db (old_X {''HL2''} [''HL2''])) (frag_X [(''k'', [({}, V1)])])
      = Inr (X_db (old_X {''HL2''} [''HL2'', ''EP1'']))
   \<and> import_ent ''EP1'' (X_db (old_X {''HL2''} [''HL2'', ''EP1''])) (frag_X [(''k'', [({}, V1)])])
      = Inr (X_db (old_X {''HL2''} [''EP1'', ''HL2'']))
   \<and> old_X {''HL2''} [''EP1'', ''HL2''] \<noteq> old_X {''HL2''} [''HL2'', ''EP1'']"
  by (simp add: import_ent_def X_db_def example_paths X_once X_twice) (simp add: old_X_def)

subsection \<open>Equal values and absent keys\<close>

lemma retag_single: "retag t [(tag, v)] = [(add_tag tag t, v)]"
  by (simp add: retag_def)

lemma merge_category_absent:
  assumes "name \<notin> fst ` set new_map"
  shows "map_of (merge_category E cur_map new_map) name
       = map_option (retag (CHR ''!'' # E)) (map_of cur_map name)"
proof -
  have "map_of (map (\<lambda>(n, tm). if n \<notin> N then (n, g tm) else (n, tm)) xs) name
      = map_option g (map_of xs name)" if "name \<notin> N" for N g and xs :: category
    using that by (induction xs) auto
  then show ?thesis
    using assms by (simp add: merge_category_def foldl_merge_name_other)
qed

lemma retag_keys: "fst ` set (retag t tm) = (\<lambda>tag. add_tag tag t) ` fst ` set tm"
  unfolding retag_def retag_acc_keys by simp

text \<open>
  Claim C1, on the code.  The entity has the keyvalue \<open>k\<close> with the one alternative
  \<open>{HL2}\<close> and the untagged fragment declares \<open>k\<close> with the same value: the import
  under \<open>EP1\<close> leaves the alternative keyed by \<open>{HL2}\<close>, where widening it would key
  it by \<open>add_tag {HL2} EP1\<close>, that is \<open>{HL2, EP1}\<close>.  The test on line 272 reads the tag
  of the fragment's alternative, which is empty.
\<close>

theorem import_equal_value_not_widened:
  "keyvalues (merge_ent ''EP1'' (ent\<lparr>keyvalues := [(k, [({''HL2''}, v)])]\<rparr>)
                (new_ent\<lparr>keyvalues := [(k, [({}, v)])]\<rparr>))
     = [(k, [({''HL2''}, v)])]
   \<and> add_tag {''HL2''} ''EP1'' = {''HL2'', ''EP1''}
   \<and> {''HL2''} \<noteq> {''HL2'', ''EP1''}"
  by (auto simp: merge_ent_def merge_category_def merge_name_def merge_tag_map_def
      merge_value_def add_tag_def is_negated_def upper_def upper_char_def)

text \<open>
  Claim C2, on the code.  A fragment without \<open>k\<close> imported under \<open>EP1\<close> negates the
  tag on the alternative; importing a fragment that has \<open>k\<close> again with the stored value
  leaves the negation \<open>!EP1\<close> in place.
\<close>

theorem reimport_keeps_negation:
  "keyvalues (merge_ent ''EP1'' (ent\<lparr>keyvalues := [(k, [({''HL2''}, v)])]\<rparr>)
                (new_ent\<lparr>keyvalues := []\<rparr>))
     = [(k, [({''!EP1'', ''HL2''}, v)])]
   \<and> keyvalues (merge_ent ''EP1'' (ent\<lparr>keyvalues := [(k, [({''!EP1'', ''HL2''}, v)])]\<rparr>)
                (new_ent\<lparr>keyvalues := [(k, [({}, v)])]\<rparr>))
     = [(k, [({''!EP1'', ''HL2''}, v)])]"
  by (auto simp: merge_ent_def merge_category_def merge_name_def merge_tag_map_def
      merge_value_def retag_def add_tag_def is_negated_def)

subsection \<open>A classname missing from its file\<close>

lemma action_import_append:
  "action_import E dbase (xs @ ys) =
     (case action_import E dbase xs of
        (dbase', None) \<Rightarrow> action_import E dbase' ys
      | (dbase', Some err) \<Rightarrow> (dbase', Some err))"
  by (induction xs arbitrary: dbase) (auto split: sum.splits)

text \<open>
  Claim C4, amended.  When the file at the path of an imported classname exists and does
  not hold that classname, the import raises: the invocation ends with the error, the
  database is as the classnames before it left it, and neither that classname nor any
  later one is processed.
\<close>

theorem import_missing_classname_aborts:
  assumes "action_import E dbase0 before = (dbase, None)"
    and "dbase (ent_path new_ent) = Some old_fgd"
    and "old_fgd (classname new_ent) = None"
  shows "import_ent E dbase new_ent = Inl ClassnameNotPresent
       \<and> action_import E dbase0 (before @ new_ent # rest) = (dbase, Some ClassnameNotPresent)"
  using assms by (simp add: action_import_append import_ent_def)

theorem import_missing_classname_aborts_witness:
  "action_import ''EP1'' stray_db [frag_Y] =
      (stray_db(''brush/Y.fgd'' \<mapsto> [''Y'' \<mapsto> set_appliesto ''EP1'' frag_Y]), None)
   \<and> (stray_db(''brush/Y.fgd'' \<mapsto> [''Y'' \<mapsto> set_appliesto ''EP1'' frag_Y])) (ent_path (frag_X []))
       = Some [''W'' \<mapsto> frag_Y]
   \<and> [''W'' \<mapsto> frag_Y] (classname (frag_X [])) = None
   \<and> import_ent ''EP1'' (stray_db(''brush/Y.fgd'' \<mapsto> [''Y'' \<mapsto> set_appliesto ''EP1'' frag_Y]))
        (frag_X []) = Inl ClassnameNotPresent
   \<and> action_import ''EP1'' stray_db ([frag_Y] @ frag_X [] # [frag_Z])
       = (stray_db(''brush/Y.fgd'' \<mapsto> [''Y'' \<mapsto> set_appliesto ''EP1'' frag_Y]),
          Some ClassnameNotPresent)"
proof -
  have a: "action_import ''EP1'' stray_db [frag_Y] =
      (stray_db(''brush/Y.fgd'' \<mapsto> [''Y'' \<mapsto> set_appliesto ''EP1'' frag_Y]), None)"
    by (simp add: import_ent_def stray_db_def example_paths)
  have b: "(stray_db(''brush/Y.fgd'' \<mapsto> [''Y'' \<mapsto> set_appliesto ''EP1'' frag_Y]))
      (ent_path (frag_X [])) = Some [''W'' \<mapsto> frag_Y]"
    by (simp add: stray_db_def example_paths)
  have c: "[''W'' \<mapsto> frag_Y] (classname (frag_X [])) = None"
    by (simp add: example_paths)
  note r = import_missing_classname_aborts[OF a b c, of "[frag_Z]"]
  show ?thesis
    by (intro conjI a b c conjunct1[OF r] conjunct2[OF r])
qed

text \<open>
  Claim C4 as stated fails: the error ends the loop, so the classname after the failing
  one, which would import on its own, is not written.
\<close>

theorem import_continues_counterexample:
  "action_import ''EP1'' stray_db [frag_X [], frag_Z] = (stray_db, Some ClassnameNotPresent)
   \<and> stray_db (ent_path frag_Z) = None
   \<and> import_ent ''EP1'' stray_db frag_Z
       = Inr (stray_db(''bases/Z.fgd'' \<mapsto> [''Z'' \<mapsto> set_appliesto ''EP1'' frag_Z]))"
  by (simp add: import_ent_def stray_db_def example_paths)

section \<open>Properties of the export\<close>

subsection \<open>Engine mode\<close>

lemma engine_category_error:
  "(key, tm) \<in> set cat \<Longrightarrow> engine_key int_ok cls key tm = Inl e \<Longrightarrow>
   \<exists>e'. engine_category int_ok cls cat = Inl e'"
proof (induction cat)
  case Nil
  then show ?case by simp
next
  case (Cons x cat)
  obtain k t where x: "x = (k, t)" by (cases x)
  show ?case
  proof (cases "x = (key, tm)")
    case True
    with x Cons.prems(2) show ?thesis by simp
  next
    case False
    with Cons have "\<exists>e'. engine_category int_ok cls cat = Inl e'" by simp
    then show ?thesis using x by (auto split: sum.splits)
  qed
qed

lemma engine_ent_error:
  assumes "(key, tm) \<in> set (inputs ent) \<union> set (outputs ent) \<union> set (keyvalues ent)"
    and "engine_key int_ok (classname ent) key tm = Inl e"
  shows "\<exists>e'. engine_ent int_ok ent = Inl e'"
proof -
  from assms consider
    "\<exists>e'. engine_category int_ok (classname ent) (inputs ent) = Inl e'"
    | "\<exists>e'. engine_category int_ok (classname ent) (outputs ent) = Inl e'"
    | "\<exists>e'. engine_category int_ok (classname ent) (keyvalues ent) = Inl e'"
    using engine_category_error[of key tm _ int_ok "classname ent" e] by auto
  then show ?thesis
    by cases (auto simp: engine_ent_def Let_def split: sum.splits)
qed

lemma engine_merge_error:
  "(k, ent) \<in> set es \<Longrightarrow> engine_ent int_ok ent = Inl e \<Longrightarrow>
   \<exists>e'. engine_merge int_ok es = Inl e'"
proof (induction es)
  case Nil
  then show ?case by simp
next
  case (Cons x es)
  obtain k' ent' where x: "x = (k', ent')" by (cases x)
  show ?case
  proof (cases "x = (k, ent)")
    case True
    with x Cons.prems(2) show ?thesis by simp
  next
    case False
    with Cons have "\<exists>e'. engine_merge int_ok es = Inl e'" by simp
    then show ?thesis using x by (auto split: sum.splits)
  qed
qed

text \<open>
  Claim C5.  A key with more than one alternative, one of them keyed by exactly
  \<open>{ENGINE}\<close>: that alternative is the one selected, and it becomes (its description
  cleared) the single alternative of the key; when its type is the choices type the key
  raises instead, and so does the export of any database that holds such a key.
\<close>

theorem engine_tag_rule:
  assumes "1 < length tm" and "map_of tm {''ENGINE''} = Some v"
  shows "engine_select cls key tm
           = (if vtype v = VT_CHOICES then Inl (EngineChoices cls key) else Inr v)
       \<and> engine_key int_ok cls key tm
           = (if vtype v = VT_CHOICES then Inl (EngineChoices cls key)
              else Inr [({}, v\<lparr>vdesc := []\<rparr>)])
       \<and> (vtype v = VT_CHOICES \<longrightarrow> collapse_bases fgd fgd = Inr es \<longrightarrow> (k, ent) \<in> set es \<longrightarrow>
            (key, tm) \<in> set (inputs ent) \<union> set (outputs ent) \<union> set (keyvalues ent) \<longrightarrow>
            (\<exists>e. export_engine int_ok collapse_bases fgd = Inl e))"
proof -
  have sel: "engine_select c key tm
           = (if vtype v = VT_CHOICES then Inl (EngineChoices c key) else Inr v)" for c
    using assms by (simp add: engine_select_def)
  have key: "engine_key int_ok c key tm
           = (if vtype v = VT_CHOICES then Inl (EngineChoices c key)
              else Inr [({}, v\<lparr>vdesc := []\<rparr>)])" for c
    by (simp add: engine_key_def sel engine_convert_def)
  have "\<exists>e. export_engine int_ok collapse_bases fgd = Inl e"
    if c: "vtype v = VT_CHOICES" and cb: "collapse_bases fgd fgd = Inr es"
      and ent: "(k, ent) \<in> set es"
      and k: "(key, tm) \<in> set (inputs ent) \<union> set (outputs ent) \<union> set (keyvalues ent)"
  proof -
    have "engine_key int_ok (classname ent) key tm = Inl (EngineChoices (classname ent) key)"
      using key[of "classname ent"] c by simp
    with k obtain e1 where "engine_ent int_ok ent = Inl e1"
      using engine_ent_error by blast
    with ent obtain e2 where "engine_merge int_ok es = Inl e2"
      using engine_merge_error by blast
    with cb show ?thesis by (simp add: export_engine_def)
  qed
  with sel key show ?thesis by blast
qed

theorem engine_tag_rule_witness:
  "1 < length [({}, V1), ({''ENGINE''}, V_choices)]
   \<and> map_of [({}, V1), ({''ENGINE''}, V_choices)] {''ENGINE''} = Some V_choices
   \<and> vtype V_choices = VT_CHOICES
   \<and> engine_key never_int ''X'' ''k'' [({}, V1), ({''ENGINE''}, V_choices)]
        = Inl (EngineChoices ''X'' ''k'')
   \<and> (\<exists>e. export_engine never_int keep_bases
              [(''X'', frag_X [(''k'', [({}, V1), ({''ENGINE''}, V_choices)])])] = Inl e)
   \<and> 1 < length [({}, V_choices), ({''ENGINE''}, V2)]
   \<and> map_of [({}, V_choices), ({''ENGINE''}, V2)] {''ENGINE''} = Some V2
   \<and> engine_key never_int ''X'' ''k'' [({}, V_choices), ({''ENGINE''}, V2)]
        = Inr [({}, V2\<lparr>vdesc := []\<rparr>)]"
proof -
  have l: "1 < length [({}, V1), ({''ENGINE''}, V_choices)]"
    and m: "map_of [({}, V1), ({''ENGINE''}, V_choices)] {''ENGINE''} = Some V_choices"
    and l2: "1 < length [({}, V_choices), ({''ENGINE''}, V2)]"
    and m2: "map_of [({}, V_choices), ({''ENGINE''}, V2)] {''ENGINE''} = Some V2"
    by simp_all
  have c: "vtype V_choices = VT_CHOICES" and c2: "vtype V2 \<noteq> VT_CHOICES"
    by (simp_all add: V_choices_def V2_def)
  have kb: "keep_bases [(''X'', frag_X [(''k'', [({}, V1), ({''ENGINE''}, V_choices)])])]
                       [(''X'', frag_X [(''k'', [({}, V1), ({''ENGINE''}, V_choices)])])]
      = Inr [(''X'', frag_X [(''k'', [({}, V1), ({''ENGINE''}, V_choices)])])]"
    by (simp add: keep_bases_def)
  have mem: "(''k'', [({}, V1), ({''ENGINE''}, V_choices)])
      \<in> set (inputs (frag_X [(''k'', [({}, V1), ({''ENGINE''}, V_choices)])]))
        \<union> set (outputs (frag_X [(''k'', [({}, V1), ({''ENGINE''}, V_choices)])]))
        \<union> set (keyvalues (frag_X [(''k'', [({}, V1), ({''ENGINE''}, V_choices)])]))"
    by (simp add: frag_X_def)
  note r = engine_tag_rule[OF l m, of "''X''" "''k''" never_int keep_bases
      "[(''X'', frag_X [(''k'', [({}, V1), ({''ENGINE''}, V_choices)])])]"
      "[(''X'', frag_X [(''k'', [({}, V1), ({''ENGINE''}, V_choices)])])]"
      "''X''" "frag_X [(''k'', [({}, V1), ({''ENGINE''}, V_choices)])]"]
  note r2 = engine_tag_rule[OF l2 m2, of "''X''" "''k''" never_int]
  from conjunct1[OF conjunct2[OF r]] c
  have a: "engine_key never_int ''X'' ''k'' [({}, V1), ({''ENGINE''}, V_choices)]
        = Inl (EngineChoices ''X'' ''k'')"
    by simp
  have b: "\<exists>e. export_engine never_int keep_bases
              [(''X'', frag_X [(''k'', [({}, V1), ({''ENGINE''}, V_choices)])])] = Inl e"
    by (rule conjunct2[OF conjunct2[OF r], rule_format, OF c kb _ mem]) simp
  from conjunct1[OF conjunct2[OF r2]] c2 have d: "engine_key never_int ''X'' ''k'' [({}, V_choices), ({''ENGINE''}, V2)]
        = Inr [({}, V2\<lparr>vdesc := []\<rparr>)]"
    by simp
  show ?thesis by (intro conjI l m c a b l2 m2 d)
qed

subsection \<open>Tagged mode\<close>

lemma set_update_cases:
  "x \<in> set (AList.update k v al) \<Longrightarrow> x = (k, v) \<or> x \<in> set al"
  by (induction al) (auto split: if_splits)

lemma get_appliesto_classname: "classname (snd (get_appliesto ent)) = classname ent"
  by (simp add: get_appliesto_def Let_def)

lemma cull_inv:
  assumes "strip_tags_frame strip_tags"
    and "cull match_tags strip_tags tags ents acc = Inr out"
    and "\<And>x. x \<in> set acc \<Longrightarrow> culled_ok match_tags tags (seen :: EntityDef list) x"
    and "x \<in> set out"
  shows "culled_ok match_tags tags (seen @ ents) x"
  using assms(2,3)
proof (induction ents arbitrary: acc seen)
  case Nil
  then show ?case using assms(4) by simp
next
  case (Cons ent ents)
  obtain applies_to ent1 where g: "get_appliesto ent = (applies_to, ent1)"
    by (cases "get_appliesto ent")
  have weaken: "culled_ok match_tags tags (seen @ [ent]) y"
    if "culled_ok match_tags tags seen y" for y
    using that by (auto simp: culled_ok_def)
  show ?case
  proof (cases "match_tags tags applies_to")
    case False
    with Cons.prems(1) g have c: "cull match_tags strip_tags tags ents acc = Inr out" by simp
    have "culled_ok match_tags tags ((seen @ [ent]) @ ents) x"
      using c
    proof (rule Cons.IH)
      fix y assume "y \<in> set acc"
      then show "culled_ok match_tags tags (seen @ [ent]) y"
        using Cons.prems(2) weaken by blast
    qed
    then show ?thesis by simp
  next
    case True
    define stripped where
      "stripped = ent1\<lparr>helpers := filter (\<lambda>h. fst h \<noteq> EXT_APPLIES_TO) (helpers ent1)\<rparr>"
    from Cons.prems(1) g True obtain ent2 where
      s: "strip_tags tags stripped = Inr ent2"
      and c: "cull match_tags strip_tags tags ents (AList.update (classname ent) ent2 acc) = Inr out"
      by (auto simp: stripped_def split: sum.splits)
    from assms(1) s have f: "classname ent2 = classname stripped" "helpers ent2 = helpers stripped"
      by (auto simp: strip_tags_frame_def)
    have cn: "classname ent2 = classname ent"
      using f(1) get_appliesto_classname[of ent] g by (simp add: stripped_def)
    have nh: "\<not> list_ex is_appliesto (helpers ent2)"
      by (simp add: f(2) stripped_def list_ex_iff is_appliesto_def)
    have new: "culled_ok match_tags tags (seen @ [ent]) (classname ent, ent2)"
      using cn nh True g by (simp add: culled_ok_def)
    have "culled_ok match_tags tags ((seen @ [ent]) @ ents) x"
      using c
    proof (rule Cons.IH)
      fix y assume "y \<in> set (AList.update (classname ent) ent2 acc)"
      then have "y = (classname ent, ent2) \<or> y \<in> set acc" by (rule set_update_cases)
      then show "culled_ok match_tags tags (seen @ [ent]) y"
        using new Cons.prems(2) weaken by blast
    qed
    then show ?thesis by simp
  qed
qed

lemma collapse_frame_member:
  assumes "map ent_frame es' = map ent_frame es" and "x' \<in> set es'"
  shows "\<exists>x \<in> set es. ent_frame x = ent_frame x'"
proof -
  from assms(2) have "ent_frame x' \<in> set (map ent_frame es')" by simp
  then have "ent_frame x' \<in> set (map ent_frame es)" by (simp only: assms(1))
  then show ?thesis by auto
qed

text \<open>
  Claim C6.  When the tagged export produces a database: an entity of the loaded database
  whose normalised AppliesTo arguments are not matched by the expanded tags is not in it
  (its classname is neither a key nor the classname of an exported entity), no exported
  entity has an AppliesTo helper, and none is a base entity.
\<close>

theorem tagged_export_post:
  assumes sf: "strip_tags_frame strip_tags"
    and cf: "collapse_bases_frame collapse_bases"
    and d: "distinct (map (\<lambda>ke. classname (snd ke)) fgd)"
    and ex: "export_tagged match_tags strip_tags collapse_bases tags fgd = Inr out"
  shows "(\<forall>ke \<in> set fgd. \<not> match_tags (expand_tags tags) (fst (get_appliesto (snd ke))) \<longrightarrow>
            classname (snd ke) \<notin> fst ` set out
            \<and> classname (snd ke) \<notin> (\<lambda>x. classname (snd x)) ` set out)
       \<and> (\<forall>x \<in> set out. \<not> list_ex is_appliesto (helpers (snd x)) \<and> etype (snd x) \<noteq> BASE)"
proof -
  from ex obtain kept collapsed where
    k: "cull match_tags strip_tags (expand_tags tags) (map snd fgd) [] = Inr kept"
    and c: "collapse_bases fgd kept = Inr collapsed"
    and o: "out = remove_bases collapsed"
    by (auto simp: export_tagged_def split: sum.splits)
  from cf c have fr: "map ent_frame collapsed = map ent_frame kept"
    by (auto simp: collapse_bases_frame_def)
  have kept_ok: "culled_ok match_tags (expand_tags tags) (map snd fgd) y" if "y \<in> set kept" for y
    using cull_inv[OF sf k _ that, of "[]"] by simp
  have out_ok: "\<exists>y. culled_ok match_tags (expand_tags tags) (map snd fgd) y
      \<and> ent_frame y = ent_frame x \<and> etype (snd x) \<noteq> BASE" if "x \<in> set out" for x
  proof -
    from that o have xc: "x \<in> set collapsed" and nb: "etype (snd x) \<noteq> BASE"
      by (auto simp: remove_bases_def)
    from collapse_frame_member[OF fr xc] obtain y where "y \<in> set kept" "ent_frame y = ent_frame x"
      by blast
    with kept_ok nb show ?thesis by blast
  qed
  have part2: "\<not> list_ex is_appliesto (helpers (snd x)) \<and> etype (snd x) \<noteq> BASE"
    if "x \<in> set out" for x
    using out_ok[OF that] by (auto simp: culled_ok_def ent_frame_def)
  have part1: "classname (snd ke) \<notin> fst ` set out
       \<and> classname (snd ke) \<notin> (\<lambda>x. classname (snd x)) ` set out"
    if ke: "ke \<in> set fgd"
      and nm: "\<not> match_tags (expand_tags tags) (fst (get_appliesto (snd ke)))" for ke
  proof -
    have "fst x \<noteq> classname (snd ke) \<and> classname (snd x) \<noteq> classname (snd ke)"
      if "x \<in> set out" for x
    proof -
      from out_ok[OF that] obtain y where
        y: "culled_ok match_tags (expand_tags tags) (map snd fgd) y" "ent_frame y = ent_frame x"
        by blast
      from y(1) obtain ke' where ke': "ke' \<in> set fgd" "classname (snd ke') = fst y"
        "match_tags (expand_tags tags) (fst (get_appliesto (snd ke')))"
        by (auto simp: culled_ok_def list_ex_iff)
      have "classname (snd ke') \<noteq> classname (snd ke)"
      proof
        assume "classname (snd ke') = classname (snd ke)"
        with d ke ke'(1) have "ke' = ke"
          by (auto simp: distinct_map inj_on_def)
        with ke'(3) nm show False by simp
      qed
      moreover from y have "fst x = fst y" "classname (snd x) = fst y"
        by (auto simp: culled_ok_def ent_frame_def)
      ultimately show ?thesis using ke'(2) by simp
    qed
    then show ?thesis by (auto simp: image_iff) metis+
  qed
  from part1 part2 show ?thesis by blast
qed

lemma keep_frames: "strip_tags_frame keep_tags" "collapse_bases_frame keep_bases"
  by (simp_all add: strip_tags_frame_def collapse_bases_frame_def keep_tags_def keep_bases_def)

theorem tagged_export_post_witness:
  "distinct (map (\<lambda>ke. classname (snd ke)) loaded_fgd)
   \<and> export_tagged all_in_tags keep_tags keep_bases {''HL2''} loaded_fgd
       = Inr [(''X'', (old_X {''HL2''} [''HL2''])\<lparr>helpers := []\<rparr>), (''Y'', frag_Y\<lparr>helpers := []\<rparr>)]
   \<and> (''W'', ent_W) \<in> set loaded_fgd
   \<and> \<not> all_in_tags (expand_tags {''HL2''}) (fst (get_appliesto (snd (''W'', ent_W))))
   \<and> classname ent_W \<notin> fst ` set [(''X'', (old_X {''HL2''} [''HL2''])\<lparr>helpers := []\<rparr>),
                                      (''Y'', frag_Y\<lparr>helpers := []\<rparr>)]
   \<and> \<not> list_ex is_appliesto (helpers ((old_X {''HL2''} [''HL2''])\<lparr>helpers := []\<rparr>))
   \<and> etype ((old_X {''HL2''} [''HL2''])\<lparr>helpers := []\<rparr>) \<noteq> BASE
   \<and> \<not> list_ex is_appliesto (helpers (frag_Y\<lparr>helpers := []\<rparr>))
   \<and> etype (frag_Y\<lparr>helpers := []\<rparr>) \<noteq> BASE"
proof -
  have d: "distinct (map (\<lambda>ke. classname (snd ke)) loaded_fgd)"
    by (simp add: loaded_fgd_def old_X_def ent_W_def frag_Y_def frag_Z_def)
  have ex: "export_tagged all_in_tags keep_tags keep_bases {''HL2''} loaded_fgd
       = Inr [(''X'', (old_X {''HL2''} [''HL2''])\<lparr>helpers := []\<rparr>), (''Y'', frag_Y\<lparr>helpers := []\<rparr>)]"
    by code_simp
  have w: "(''W'', ent_W) \<in> set loaded_fgd" by (simp add: loaded_fgd_def)
  have nm: "\<not> all_in_tags (expand_tags {''HL2''}) (fst (get_appliesto (snd (''W'', ent_W))))"
    by code_simp
  note r = tagged_export_post[OF keep_frames d ex]
  from r w nm have a: "classname ent_W \<notin> fst ` set [(''X'', (old_X {''HL2''} [''HL2''])\<lparr>helpers := []\<rparr>),
                                      (''Y'', frag_Y\<lparr>helpers := []\<rparr>)]"
    by fastforce
  from r have b: "\<forall>x \<in> set [(''X'', (old_X {''HL2''} [''HL2''])\<lparr>helpers := []\<rparr>), (''Y'', frag_Y\<lparr>helpers := []\<rparr>)].
         \<not> list_ex is_appliesto (helpers (snd x)) \<and> etype (snd x) \<noteq> BASE"
    by blast
  from b have b1: "\<not> list_ex is_appliesto (helpers ((old_X {''HL2''} [''HL2''])\<lparr>helpers := []\<rparr>))"
    and b2: "etype ((old_X {''HL2''} [''HL2''])\<lparr>helpers := []\<rparr>) \<noteq> BASE"
    and b3: "\<not> list_ex is_appliesto (helpers (frag_Y\<lparr>helpers := []\<rparr>))"
    and b4: "etype (frag_Y\<lparr>helpers := []\<rparr>) \<noteq> BASE"
    by simp_all
  show ?thesis by (intro conjI d ex w nm a b1 b2 b3 b4)
qed

section \<open>Properties of the comp\_adv\_output transform\<close>

subsection \<open>The parameter loop returns\<close>

lemma digit_char_inj: "a < 10 \<Longrightarrow> b < 10 \<Longrightarrow> digit_char a = digit_char b \<Longrightarrow> a = b"
  unfolding digit_char_def using nth_eq_iff_index_eq[of "''0123456789''" a b] by simp

lemma str_nat_small: "n < 10 \<Longrightarrow> str_nat n = [digit_char n]"
  by (subst str_nat.simps) simp

lemma str_nat_big: "\<not> n < 10 \<Longrightarrow> str_nat n = str_nat (n div 10) @ [digit_char (n mod 10)]"
  by (subst str_nat.simps) simp

lemma str_nat_nonempty: "str_nat n \<noteq> []"
  by (subst str_nat.simps) simp

lemma str_nat_inj: "str_nat n = str_nat m \<Longrightarrow> n = m"
proof (induction n arbitrary: m rule: less_induct)
  case (less n)
  show ?case
  proof (cases "n < 10")
    case n: True
    show ?thesis
    proof (cases "m < 10")
      case True
      with n less.prems show ?thesis by (simp add: str_nat_small digit_char_inj)
    next
      case False
      with n less.prems str_nat_nonempty[of "m div 10"] show ?thesis
        by (simp add: str_nat_small str_nat_big)
    qed
  next
    case n: False
    show ?thesis
    proof (cases "m < 10")
      case True
      with n less.prems str_nat_nonempty[of "n div 10"] show ?thesis
        by (simp add: str_nat_small str_nat_big)
    next
      case False
      with n less.prems have e: "str_nat (n div 10) = str_nat (m div 10)"
        and d: "digit_char (n mod 10) = digit_char (m mod 10)"
        by (simp_all add: str_nat_big)
      from n have "n div 10 < n" by simp
      from less.IH[OF this e] have q: "n div 10 = m div 10" .
      from d have r: "n mod 10 = m mod 10" by (intro digit_char_inj) simp_all
      from q r show ?thesis by (metis div_mult_mod_eq)
    qed
  qed
qed

lemma kv_get_absent: "key \<notin> fst ` set kv \<Longrightarrow> kv_get kv key = []"
proof (cases "map_of kv key")
  case None
  then show ?thesis by (simp add: kv_get_def)
next
  case (Some v)
  then have "(key, v) \<in> set kv" by (rule map_of_SomeD)
  moreover assume "key \<notin> fst ` set kv"
  ultimately show ?thesis by (auto simp: image_iff)
qed

lemma param_val_stops: "\<exists>n \<ge> ind. param_val kv n = []"
proof -
  define K where "K = fst ` set kv"
  define B where "B = (\<lambda>n. ''params_pos'' @ str_nat n) -` K
      \<union> (\<lambda>n. ''params_local'' @ str_nat n) -` K
      \<union> (\<lambda>n. ''params_global'' @ str_nat n) -` K"
  have fK: "finite K" by (simp add: K_def)
  have "inj (\<lambda>n. p @ str_nat n)" for p
    by (rule injI) (simp add: str_nat_inj)
  then have fin: "finite ((\<lambda>n. p @ str_nat n) -` K)" for p
    using fK by (intro finite_vimageI)
  have "finite B"
    unfolding B_def by (intro finite_UnI fin)
  then have "finite (B \<union> {..<ind})" by simp
  then obtain n where n: "n \<notin> B \<union> {..<ind}"
    using ex_new_if_finite infinite_UNIV_nat by blast
  then have "param_val kv n = []"
    by (simp add: B_def K_def param_val_def kv_get_absent)
  moreover from n have "ind \<le> n" by simp
  ultimately show ?thesis by blast
qed

lemma param_args_upto:
  "ind \<le> n \<Longrightarrow> param_val kv n = [] \<Longrightarrow> \<exists>args. param_args kv ind = Some args"
proof (induction "n - ind" arbitrary: ind)
  case 0
  then have "ind = n" by simp
  with 0 show ?case by (subst param_args.simps) simp
next
  case (Suc d)
  then have "\<exists>args. param_args kv (Suc ind) = Some args" by (intro Suc.hyps) auto
  then show ?case by (subst param_args.simps) auto
qed

lemma param_args_returns: "\<exists>args. param_args kv ind = Some args"
  using param_val_stops[of ind kv] param_args_upto by blast

subsection \<open>One round with a negative delay\<close>

lemma add_out_lookup:
  "map_of (add_out out m k) j =
     (if k = j then map_option (\<lambda>e. e\<lparr>ent_outs := ent_outs e @ [out]\<rparr>) (map_of m j)
      else map_of m j)"
  unfolding add_out_def by (induction m) auto

lemma foldl_add_out_keeps:
  "map_of m j = Some e \<Longrightarrow>
   \<exists>e'. map_of (foldl (add_out out) m js) j = Some e' \<and> set (ent_outs e) \<subseteq> set (ent_outs e')"
proof (induction js arbitrary: m e)
  case Nil
  then show ?case by simp
next
  case (Cons k js)
  from Cons.prems obtain e1 where e1: "map_of (add_out out m k) j = Some e1"
    "set (ent_outs e) \<subseteq> set (ent_outs e1)"
    by (cases "k = j") (auto simp: add_out_lookup)
  from Cons.IH[OF e1(1)] e1(2) show ?case by auto
qed

lemma foldl_add_out_adds:
  "j \<in> set js \<Longrightarrow> map_of m j = Some e \<Longrightarrow>
   \<exists>e'. map_of (foldl (add_out out) m js) j = Some e' \<and> out \<in> set (ent_outs e')"
proof (induction js arbitrary: m e)
  case Nil
  then show ?case by simp
next
  case (Cons k js)
  show ?case
  proof (cases "k = j")
    case True
    with Cons.prems(2) obtain e1 where e1: "map_of (add_out out m k) j = Some e1"
      "out \<in> set (ent_outs e1)"
      by (auto simp: add_out_lookup)
    from foldl_add_out_keeps[OF e1(1), of out js] e1(2) show ?thesis by auto
  next
    case False
    with Cons.prems have "j \<in> set js" "map_of (add_out out m k) j = Some e"
      by (auto simp: add_out_lookup)
    from Cons.IH[OF this] show ?thesis by simp
  qed
qed

lemma negative_delay_round:
  assumes en: "check_control_enabled E kv"
    and tg: "has_target kv"
    and neg: "fneg E (raw_delay E kv)"
    and fmt: "\<forall>args. param_args kv 1 = Some args \<longrightarrow> format_parameter E kv args = Inr parameter"
  shows "\<exists>st'. advanced_output_one E i kv st = Some st'
      \<and> NegativeDelay (kv_get kv ''origin'') \<in> set (log st')
      \<and> vmf st' = foldl (add_out (configured_output E kv parameter (fzero E)))
                    (AList.delete i (vmf st))
                    (search E (AList.delete i (vmf st)) (kv_get kv ''out_ent''))
      \<and> (\<forall>j e. j \<in> set (search E (AList.delete i (vmf st)) (kv_get kv ''out_ent'')) \<longrightarrow>
             map_of (AList.delete i (vmf st)) j = Some e \<longrightarrow>
             (\<exists>e'. map_of (vmf st') j = Some e'
                \<and> configured_output E kv parameter (fzero E) \<in> set (ent_outs e')))"
proof -
  from param_args_returns[of kv 1] obtain args where a: "param_args kv 1 = Some args" by blast
  with fmt have f: "format_parameter E kv args = Inr parameter" by blast
  define m1 where "m1 = AList.delete i (vmf st)"
  define found where "found = search E m1 (kv_get kv ''out_ent'')"
  define out where "out = configured_output E kv parameter (fzero E)"
  define st3 where "st3 = \<lparr>vmf = foldl (add_out out) m1 found,
      log = log st @ [NegativeDelay (kv_get kv ''origin'')]\<rparr>"
  define st' where "st' = (if found = []
      then st3\<lparr>log := log st3 @ [NoEntities (kv_get kv ''target'') (kv_get kv ''origin'')]\<rparr>
      else st3)"
  have r: "advanced_output_one E i kv st = Some st'"
    using en tg neg a f
    by (simp add: advanced_output_one_def Let_def st'_def st3_def out_def found_def m1_def)
  have l: "NegativeDelay (kv_get kv ''origin'') \<in> set (log st')"
    by (simp add: st'_def st3_def)
  have v: "vmf st' = foldl (add_out out) m1 found"
    by (simp add: st'_def st3_def)
  have "\<exists>e'. map_of (vmf st') j = Some e' \<and> out \<in> set (ent_outs e')"
    if "j \<in> set found" "map_of m1 j = Some e" for j e
    unfolding v using that by (rule foldl_add_out_adds)
  with r l v show ?thesis
    unfolding out_def found_def m1_def by blast
qed

lemma disabled_round:
  assumes "\<not> check_control_enabled E kv"
  shows "advanced_output_one E i kv st = Some (st\<lparr>vmf := AList.delete i (vmf st)\<rparr>)"
  using assms by (simp add: advanced_output_one_def)

lemma format_failure_round:
  assumes en: "check_control_enabled E kv"
    and tg: "has_target kv"
    and neg: "fneg E (raw_delay E kv)"
    and fmt: "\<forall>args. param_args kv 1 = Some args \<longrightarrow> format_parameter E kv args = Inl err"
  shows "\<exists>args. param_args kv 1 = Some args
      \<and> advanced_output_one E i kv st
          = Some \<lparr>vmf = AList.delete i (vmf st),
                  log = log st @ [NegativeDelay (kv_get kv ''origin''),
                    FormatFailed (kv_get kv ''origin'') (kv_get kv ''params_fmt'') args]\<rparr>"
proof -
  from param_args_returns[of kv 1] obtain args where a: "param_args kv 1 = Some args" by blast
  with fmt have f: "format_parameter E kv args = Inl err" by blast
  have "advanced_output_one E i kv st
          = Some \<lparr>vmf = AList.delete i (vmf st),
                  log = log st @ [NegativeDelay (kv_get kv ''origin''),
                    FormatFailed (kv_get kv ''origin'') (kv_get kv ''params_fmt'') args]\<rparr>"
    using en tg neg a f by (simp add: advanced_output_one_def Let_def)
  with a show ?thesis by blast
qed

lemma adv_facts:
  "check_control_enabled int_env (adv_keys fmt)"
  "has_target (adv_keys fmt)"
  "fneg int_env (raw_delay int_env (adv_keys fmt))"
  "kv_get (adv_keys fmt) ''params_fmt'' = fmt"
  "kv_get (adv_keys fmt) ''origin'' = ''0 0 0''"
  "kv_get (adv_keys fmt) ''out_ent'' = ''button''"
  "AList.delete 0 (adv_map fmt) = [(1, button)]"
  "search int_env [(1, button)] ''button'' = [1]"
  "\<not> check_control_enabled int_env ((''ctrl_value'', ''0'') # adv_keys fmt)"
  by (simp_all add: int_env_def has_target_def raw_target_def raw_delay_def adv_keys_def
      kv_get_def adv_map_def button_def)

lemma adv_no_params: "param_args (adv_keys fmt) 1 = Some []"
proof -
  have "str_nat 1 = ''1''"
    by (subst str_nat.simps) (simp add: digit_char_def)
  then have "param_val (adv_keys fmt) 1 = []"
    by (simp add: param_val_def adv_keys_def kv_get_def)
  then show ?thesis by (subst param_args.simps) simp
qed

lemma adv_formats:
  "format_parameter int_env (adv_keys []) [] = Inr []"
  "format_parameter int_env (adv_keys ''{1}'') [] = Inl IndexError"
  by (simp_all add: format_parameter_def adv_facts int_env_def field_vformat_def get_value_def)

text \<open>
  Claim C10, amended.  One round of the transform, from any state, for a
  comp\_adv\_output entity.  When the entity is enabled, has a target, and its format is
  empty or formats without an exception: if its two delays sum to a negative number the
  round returns, logs the warning, and adds the configured output, with the delay \<open>0.0\<close>,
  to every entity that the search for \<open>out_ent\<close> finds in the map.  When the entity is
  disabled the round only removes it: nothing is logged and no output is added.  When it
  is enabled, has a target and a negative delay sum, and formatting raises, the round
  logs the warning and the failure and adds no output.
\<close>

theorem negative_delay_clamped:
  "(check_control_enabled E kv \<and> has_target kv \<and> fneg E (raw_delay E kv)
      \<and> (\<forall>args. param_args kv 1 = Some args \<longrightarrow> format_parameter E kv args = Inr parameter)
    \<longrightarrow> (\<exists>st'. advanced_output_one E i kv st = Some st'
      \<and> NegativeDelay (kv_get kv ''origin'') \<in> set (log st')
      \<and> vmf st' = foldl (add_out (configured_output E kv parameter (fzero E)))
                    (AList.delete i (vmf st))
                    (search E (AList.delete i (vmf st)) (kv_get kv ''out_ent''))
      \<and> (\<forall>j e. j \<in> set (search E (AList.delete i (vmf st)) (kv_get kv ''out_ent'')) \<longrightarrow>
             map_of (AList.delete i (vmf st)) j = Some e \<longrightarrow>
             (\<exists>e'. map_of (vmf st') j = Some e'
                \<and> configured_output E kv parameter (fzero E) \<in> set (ent_outs e')))))
   \<and> (\<not> check_control_enabled E kv
    \<longrightarrow> advanced_output_one E i kv st = Some (st\<lparr>vmf := AList.delete i (vmf st)\<rparr>))
   \<and> (check_control_enabled E kv \<and> has_target kv \<and> fneg E (raw_delay E kv)
      \<and> (\<forall>args. param_args kv 1 = Some args \<longrightarrow> format_parameter E kv args = Inl err)
    \<longrightarrow> (\<exists>args. param_args kv 1 = Some args
      \<and> advanced_output_one E i kv st
          = Some \<lparr>vmf = AList.delete i (vmf st),
                  log = log st @ [NegativeDelay (kv_get kv ''origin''),
                    FormatFailed (kv_get kv ''origin'') (kv_get kv ''params_fmt'') args]\<rparr>))"
proof (intro conjI impI)
  assume "check_control_enabled E kv \<and> has_target kv \<and> fneg E (raw_delay E kv)
      \<and> (\<forall>args. param_args kv 1 = Some args \<longrightarrow> format_parameter E kv args = Inr parameter)"
  then show "\<exists>st'. advanced_output_one E i kv st = Some st'
      \<and> NegativeDelay (kv_get kv ''origin'') \<in> set (log st')
      \<and> vmf st' = foldl (add_out (configured_output E kv parameter (fzero E)))
                    (AList.delete i (vmf st))
                    (search E (AList.delete i (vmf st)) (kv_get kv ''out_ent''))
      \<and> (\<forall>j e. j \<in> set (search E (AList.delete i (vmf st)) (kv_get kv ''out_ent'')) \<longrightarrow>
             map_of (AList.delete i (vmf st)) j = Some e \<longrightarrow>
             (\<exists>e'. map_of (vmf st') j = Some e'
                \<and> configured_output E kv parameter (fzero E) \<in> set (ent_outs e')))"
    using negative_delay_round[of E kv parameter i st] by blast
next
  assume "\<not> check_control_enabled E kv"
  then show "advanced_output_one E i kv st = Some (st\<lparr>vmf := AList.delete i (vmf st)\<rparr>)"
    by (rule disabled_round)
next
  assume "check_control_enabled E kv \<and> has_target kv \<and> fneg E (raw_delay E kv)
      \<and> (\<forall>args. param_args kv 1 = Some args \<longrightarrow> format_parameter E kv args = Inl err)"
  then show "\<exists>args. param_args kv 1 = Some args
      \<and> advanced_output_one E i kv st
          = Some \<lparr>vmf = AList.delete i (vmf st),
                  log = log st @ [NegativeDelay (kv_get kv ''origin''),
                    FormatFailed (kv_get kv ''origin'') (kv_get kv ''params_fmt'') args]\<rparr>"
    using format_failure_round[of E kv err i st] by blast
qed

theorem negative_delay_clamped_witness:
  "check_control_enabled int_env (adv_keys [])
   \<and> has_target (adv_keys [])
   \<and> fneg int_env (raw_delay int_env (adv_keys []))
   \<and> param_args (adv_keys []) 1 = Some []
   \<and> format_parameter int_env (adv_keys []) [] = Inr []
   \<and> advanced_output_one int_env 0 (adv_keys []) \<lparr>vmf = adv_map [], log = []\<rparr>
       = Some \<lparr>vmf = [(1, button\<lparr>ent_outs :=
                  [\<lparr>o_output = ''OnPressed'', o_target = ''door'', o_input = ''Open'',
                    o_params = [], o_delay = 0, o_times = - 1\<rparr>]\<rparr>)],
               log = [NegativeDelay ''0 0 0'']\<rparr>
   \<and> advanced_output_one int_env 0 ((''ctrl_value'', ''0'') # adv_keys [])
         \<lparr>vmf = adv_map [], log = []\<rparr>
       = Some \<lparr>vmf = [(1, button)], log = []\<rparr>
   \<and> format_parameter int_env (adv_keys ''{1}'') [] = Inl IndexError
   \<and> advanced_output_one int_env 0 (adv_keys ''{1}'') \<lparr>vmf = adv_map ''{1}'', log = []\<rparr>
       = Some \<lparr>vmf = [(1, button)],
               log = [NegativeDelay ''0 0 0'', FormatFailed ''0 0 0'' ''{1}'' []]\<rparr>"
proof -
  have fa: "\<forall>args. param_args (adv_keys []) 1 = Some args \<longrightarrow>
      format_parameter int_env (adv_keys []) args = Inr []"
  proof (intro allI impI)
    fix args assume "param_args (adv_keys []) 1 = Some args"
    with adv_no_params[of "[]"] have "args = []" by simp
    with adv_formats(1) show "format_parameter int_env (adv_keys []) args = Inr []" by simp
  qed
  have fb: "\<forall>args. param_args (adv_keys ''{1}'') 1 = Some args \<longrightarrow>
      format_parameter int_env (adv_keys ''{1}'') args = Inl IndexError"
  proof (intro allI impI)
    fix args assume "param_args (adv_keys ''{1}'') 1 = Some args"
    with adv_no_params[of "''{1}''"] have "args = []" by simp
    with adv_formats(2) show "format_parameter int_env (adv_keys ''{1}'') args = Inl IndexError"
      by simp
  qed
  note r1 = negative_delay_clamped[of int_env "adv_keys []" "[]" 0
      "\<lparr>vmf = adv_map [], log = []\<rparr>" IndexError]
  note r2 = negative_delay_clamped[of int_env "(''ctrl_value'', ''0'') # adv_keys []" "[]" 0
      "\<lparr>vmf = adv_map [], log = []\<rparr>" IndexError]
  note r3 = negative_delay_clamped[of int_env "adv_keys ''{1}''" "[]" 0
      "\<lparr>vmf = adv_map ''{1}'', log = []\<rparr>" IndexError]
  from conjunct1[OF r1] adv_facts(1)[of "[]"] adv_facts(2)[of "[]"] adv_facts(3)[of "[]"] fa
  obtain st' where s: "advanced_output_one int_env 0 (adv_keys []) \<lparr>vmf = adv_map [], log = []\<rparr>
        = Some st'"
    by blast
  have c: "advanced_output_one int_env 0 (adv_keys []) \<lparr>vmf = adv_map [], log = []\<rparr>
       = Some \<lparr>vmf = [(1, button\<lparr>ent_outs :=
                  [\<lparr>o_output = ''OnPressed'', o_target = ''door'', o_input = ''Open'',
                    o_params = [], o_delay = 0, o_times = - 1\<rparr>]\<rparr>)],
               log = [NegativeDelay ''0 0 0'']\<rparr>"
    by code_simp
  from s c have e: "st' = \<lparr>vmf = [(1, button\<lparr>ent_outs :=
                  [\<lparr>o_output = ''OnPressed'', o_target = ''door'', o_input = ''Open'',
                    o_params = [], o_delay = 0, o_times = - 1\<rparr>]\<rparr>)],
               log = [NegativeDelay ''0 0 0'']\<rparr>"
    by simp
  from conjunct1[OF conjunct2[OF r2]] adv_facts(9)[of "[]"]
  have "advanced_output_one int_env 0 ((''ctrl_value'', ''0'') # adv_keys [])
         \<lparr>vmf = adv_map [], log = []\<rparr>
       = Some (\<lparr>vmf = adv_map [], log = []\<rparr>
                \<lparr>vmf := AList.delete 0 (vmf \<lparr>vmf = adv_map [], log = []\<rparr>)\<rparr>)"
    by blast
  then have d: "advanced_output_one int_env 0 ((''ctrl_value'', ''0'') # adv_keys [])
         \<lparr>vmf = adv_map [], log = []\<rparr>
       = Some \<lparr>vmf = [(1, button)], log = []\<rparr>"
    by (simp add: adv_facts(7))
  from conjunct2[OF conjunct2[OF r3]] adv_facts(1)[of "''{1}''"] adv_facts(2)[of "''{1}''"]
    adv_facts(3)[of "''{1}''"] fb
  obtain args where a: "param_args (adv_keys ''{1}'') 1 = Some args"
    and o: "advanced_output_one int_env 0 (adv_keys ''{1}'') \<lparr>vmf = adv_map ''{1}'', log = []\<rparr>
          = Some \<lparr>vmf = AList.delete 0 (vmf \<lparr>vmf = adv_map ''{1}'', log = []\<rparr>),
                  log = log \<lparr>vmf = adv_map ''{1}'', log = []\<rparr>
                    @ [NegativeDelay (kv_get (adv_keys ''{1}'') ''origin''),
                       FormatFailed (kv_get (adv_keys ''{1}'') ''origin'')
                         (kv_get (adv_keys ''{1}'') ''params_fmt'') args]\<rparr>"
    by blast
  from a adv_no_params[of "''{1}''"] have "args = []" by simp
  with o have f: "advanced_output_one int_env 0 (adv_keys ''{1}'') \<lparr>vmf = adv_map ''{1}'', log = []\<rparr>
       = Some \<lparr>vmf = [(1, button)],
               log = [NegativeDelay ''0 0 0'', FormatFailed ''0 0 0'' ''{1}'' []]\<rparr>"
    by (simp add: adv_facts)
  show ?thesis
    by (intro conjI adv_facts(1) adv_facts(2) adv_facts(3) adv_no_params adv_formats
        s[unfolded e] d f)
qed

text \<open>
  Claim C10 as stated fails: an enabled entity with a target, the delay -1 and the format
  \<open>{1}\<close> without a parameter.  The warning is logged, \<open>get_value\<close> raises on the missing
  argument, and the round ends by the \<open>continue\<close> of line 80: the button that the search
  finds gets no output.
\<close>

theorem negative_delay_counterexample:
  "check_control_enabled int_env (adv_keys ''{1}'')
   \<and> has_target (adv_keys ''{1}'')
   \<and> fneg int_env (raw_delay int_env (adv_keys ''{1}''))
   \<and> get_value (IntKey 1) [] = Inl IndexError
   \<and> search int_env (AList.delete 0 (adv_map ''{1}'')) (kv_get (adv_keys ''{1}'') ''out_ent'') = [1]
   \<and> advanced_output_one int_env 0 (adv_keys ''{1}'') \<lparr>vmf = adv_map ''{1}'', log = []\<rparr>
       = Some \<lparr>vmf = [(1, button)],
               log = [NegativeDelay ''0 0 0'', FormatFailed ''0 0 0'' ''{1}'' []]\<rparr>
   \<and> ent_outs button = []"
proof -
  have a: "advanced_output_one int_env 0 (adv_keys ''{1}'') \<lparr>vmf = adv_map ''{1}'', log = []\<rparr>
       = Some \<lparr>vmf = [(1, button)],
               log = [NegativeDelay ''0 0 0'', FormatFailed ''0 0 0'' ''{1}'' []]\<rparr>"
    by code_simp
  have g: "get_value (IntKey 1) [] = Inl IndexError"
    by (simp add: get_value_def)
  have b: "ent_outs button = []" by (simp add: button_def)
  have s: "search int_env (AList.delete 0 (adv_map ''{1}'')) (kv_get (adv_keys ''{1}'') ''out_ent'')
      = [1]"
    by (simp only: adv_facts)
  show ?thesis
    by (intro conjI adv_facts(1) adv_facts(2) adv_facts(3) g s a b)
qed

end
